theory Spec2Isabelle
  imports Complex_Main "HOL-Library.Word"
begin

unbundle bit_operations_syntax

section \<open>Bytes, errors and panics\<close>

text \<open>
  The streaming codec of \<^verbatim>\<open>crypto/block_cipher/basic_block_cipher.go\<close>.
  A Go \<^verbatim>\<open>[]byte\<close> is a list of 8-bit words. A Go function that returns an
  \<^verbatim>\<open>error\<close> returns an \<open>outcome\<close> here; a run-time panic (index out of
  range, a panic raised by the standard library) is the third constructor, so that "returns an
  error" and "panics" stay apart.
\<close>

type_synonym byte = "8 word"
type_synonym bytes = "byte list"

text \<open>The errors of package \<^verbatim>\<open>io\<close> a reader or writer can hand back.\<close>

datatype io_error = EOF | ErrUnexpectedEOF | ErrShortWrite | ErrOther string

text \<open>
  One constructor for each error the file builds, in the order of the source; the argument
  is the error wrapped with \<^verbatim>\<open>%w\<close>.
\<close>

datatype error =
    FailedToReadHeader io_error
  | InvalidFileFormat
  | FailedToWriteDecryptedBlock io_error
  | FailedToWriteFinalBlock io_error
  | FailedToCreateCipher nat
  | FailedToReadEncryptedData io_error
  | ErrorGeneratingSalt io_error
  | ErrorWritingHeader io_error
  | ErrorWritingSalt io_error
  | ErrorCreatingAESCipher nat
  | ErrorWritingEncryptedBlock io_error
  | FailedToReadInputData io_error

datatype panic =
    IndexOutOfRange
  | SliceBoundsOutOfRange
  | InputNotFullBlocks
  | IVLengthMustEqualBlockSize

datatype 'a outcome = Ok 'a | Err error | Panic panic

section \<open>Constants of the file\<close>

definition bufferSize :: nat where
  "bufferSize = 1024 * 1024"

definition headerSize :: nat where
  "headerSize = 16"

definition saltSize :: nat where
  "saltSize = 8"

definition magicHeader :: bytes where
  "magicHeader = [0x53, 0x61, 0x6C, 0x74, 0x65, 0x64, 0x5F, 0x5F]"

definition pbkdf2Iterations :: nat where
  "pbkdf2Iterations = 10000"

definition aes256KeySize :: nat where
  "aes256KeySize = 32"

definition ivOffset :: nat where
  "ivOffset = 32"

definition aes_BlockSize :: nat where
  "aes_BlockSize = 16"

section \<open>Readers and writers\<close>

text \<open>
  An \<^verbatim>\<open>io.Reader\<close> as \<^verbatim>\<open>io.ReadFull\<close> sees it: the bytes it will still
  deliver, and the error it reports once they are used up (\<open>EOF\<close> for a file or a buffer
  that simply ends, another error for a source that breaks).
\<close>

record reader =
  remaining :: bytes
  at_end :: io_error

text \<open>
  \<^verbatim>\<open>io.ReadFull(r, buf)\<close> with \<open>n = len(buf)\<close>: the bytes placed in \<open>buf[:n']\<close>,
  the error, and the reader afterwards. As in package \<^verbatim>\<open>io\<close>, the error is nil exactly
  when the buffer was filled, and an \<open>EOF\<close> after some bytes becomes \<open>ErrUnexpectedEOF\<close>.
  The codec never looks at a buffer beyond the bytes just read, so a buffer is modelled by its
  filled prefix.
\<close>

definition ReadFull :: "reader \<Rightarrow> nat \<Rightarrow> bytes \<times> io_error option \<times> reader" where
  "ReadFull r n =
     (if n \<le> length (remaining r)
      then (take n (remaining r), None, r\<lparr>remaining := drop n (remaining r)\<rparr>)
      else (remaining r,
            Some (if at_end r = EOF \<and> remaining r \<noteq> [] then ErrUnexpectedEOF else at_end r),
            r\<lparr>remaining := []\<rparr>))"

text \<open>
  An \<^verbatim>\<open>io.Writer\<close>: what it has accepted so far and how many more bytes it will
  take (\<open>None\<close>: no limit, as a memory buffer). A write that does not fit stores what fits
  and fails.
\<close>

record writer =
  written :: bytes
  room :: "nat option"

definition Write :: "writer \<Rightarrow> bytes \<Rightarrow> io_error option \<times> writer" where
  "Write w p =
     (case room w of
        None \<Rightarrow> (None, w\<lparr>written := written w @ p\<rparr>)
      | Some k \<Rightarrow>
          if length p \<le> k
          then (None, w\<lparr>written := written w @ p, room := Some (k - length p)\<rparr>)
          else (Some ErrShortWrite, w\<lparr>written := written w @ take k p, room := Some 0\<rparr>))"

section \<open>The primitives of the Go libraries\<close>

text \<open>
  PBKDF2 (\<^verbatim>\<open>golang.org/x/crypto/pbkdf2\<close>) and the AES block transformation
  (\<^verbatim>\<open>crypto/aes\<close>) are not code of this repository: they are parameters of the
  model. \<open>pbkdf2_Key p password salt iter keyLen h\<close> is \<^verbatim>\<open>pbkdf2.Key\<close>,
  \<open>aes_Encrypt p key block\<close> and \<open>aes_Decrypt p key block\<close> are the two directions of
  the cipher \<^verbatim>\<open>aes.NewCipher(key)\<close> returns.
\<close>

datatype hash_ctor = md5_New | sha1_New | sha256_New | sha512_New

record primitives =
  pbkdf2_Key :: "bytes \<Rightarrow> bytes \<Rightarrow> nat \<Rightarrow> nat \<Rightarrow> hash_ctor \<Rightarrow> bytes"
  aes_Encrypt :: "bytes \<Rightarrow> bytes \<Rightarrow> bytes"
  aes_Decrypt :: "bytes \<Rightarrow> bytes \<Rightarrow> bytes"

text \<open>What the libraries promise: the derived key has the length asked for.\<close>

definition kdf_length_ok :: "primitives \<Rightarrow> bytes \<Rightarrow> bytes \<Rightarrow> bool" where
  "kdf_length_ok p password salt \<longleftrightarrow>
     length (pbkdf2_Key p password salt pbkdf2Iterations (aes256KeySize + aes_BlockSize) sha256_New)
       = aes256KeySize + aes_BlockSize"

text \<open>A block cipher maps a 16-byte block to a 16-byte block.\<close>

definition block_sized :: "(bytes \<Rightarrow> bytes \<Rightarrow> bytes) \<Rightarrow> bool" where
  "block_sized f \<longleftrightarrow> (\<forall>k b. length b = aes_BlockSize \<longrightarrow> length (f k b) = aes_BlockSize)"

text \<open>Decrypting a block undoes encrypting it under the same key.\<close>

definition cipher_inverts :: "primitives \<Rightarrow> bool" where
  "cipher_inverts p \<longleftrightarrow>
     (\<forall>k b. length b = aes_BlockSize \<longrightarrow> aes_Decrypt p k (aes_Encrypt p k b) = b)"

text \<open>\<^verbatim>\<open>aes.NewCipher\<close>: a key of 16, 24 or 32 bytes, or a \<^verbatim>\<open>KeySizeError\<close>.\<close>

definition NewCipher :: "bytes \<Rightarrow> nat + bytes" where
  "NewCipher key =
     (if length key = 16 \<or> length key = 24 \<or> length key = 32 then Inr key
      else Inl (length key))"

subsection \<open>CBC block modes of \<^verbatim>\<open>crypto/cipher\<close>\<close>

datatype direction = Encrypter | Decrypter

record BlockMode =
  dir :: direction
  block :: bytes
  iv :: bytes

definition xor_bytes :: "bytes \<Rightarrow> bytes \<Rightarrow> bytes" where
  "xor_bytes x y = map2 (XOR) x y"

function cbc_encrypt :: "(bytes \<Rightarrow> bytes) \<Rightarrow> bytes \<Rightarrow> bytes \<Rightarrow> bytes" where
  "cbc_encrypt E v src =
     (if src = [] then []
      else (let c = E (xor_bytes (take 16 src) v)
            in c @ cbc_encrypt E c (drop 16 src)))"
  by pat_completeness auto
termination
  by (relation "measure (\<lambda>(E, v, src). length src)") auto

function cbc_decrypt :: "(bytes \<Rightarrow> bytes) \<Rightarrow> bytes \<Rightarrow> bytes \<Rightarrow> bytes" where
  "cbc_decrypt D v src =
     (if src = [] then []
      else xor_bytes (D (take 16 src)) v @ cbc_decrypt D (take 16 src) (drop 16 src))"
  by pat_completeness auto
termination
  by (relation "measure (\<lambda>(D, v, src). length src)") auto

declare cbc_encrypt.simps [simp del] cbc_decrypt.simps [simp del]

text \<open>The chaining value a mode keeps for its next call: the last ciphertext block.\<close>

definition next_iv :: "bytes \<Rightarrow> bytes \<Rightarrow> bytes" where
  "next_iv v ct = (if ct = [] then v else drop (length ct - 16) ct)"

definition NewCBC :: "direction \<Rightarrow> bytes \<Rightarrow> bytes \<Rightarrow> BlockMode outcome" where
  "NewCBC d b v =
     (if length v \<noteq> aes_BlockSize then Panic IVLengthMustEqualBlockSize
      else Ok \<lparr>dir = d, block = b, iv = v\<rparr>)"

text \<open>
  \<^verbatim>\<open>mode.CryptBlocks(dst, src)\<close> with \<open>len(dst) = len(src)\<close>, as at both call sites:
  the bytes of \<open>dst\<close> and the mode afterwards. It panics when \<open>src\<close> is not a whole number
  of blocks.
\<close>

definition CryptBlocks :: "primitives \<Rightarrow> BlockMode \<Rightarrow> bytes \<Rightarrow> (bytes \<times> BlockMode) outcome" where
  "CryptBlocks p m src =
     (if length src mod aes_BlockSize \<noteq> 0 then Panic InputNotFullBlocks
      else (case dir m of
              Encrypter \<Rightarrow>
                (let dst = cbc_encrypt (aes_Encrypt p (block m)) (iv m) src
                 in Ok (dst, m\<lparr>iv := next_iv (iv m) dst\<rparr>))
            | Decrypter \<Rightarrow>
                (let dst = cbc_decrypt (aes_Decrypt p (block m)) (iv m) src
                 in Ok (dst, m\<lparr>iv := next_iv (iv m) src\<rparr>))))"

section \<open>Header, key derivation and padding\<close>

definition readAndValidateHeader :: "reader \<Rightarrow> bytes outcome \<times> reader" where
  "readAndValidateHeader inputFile =
     (case ReadFull inputFile headerSize of
        (header, Some e, r') \<Rightarrow> (Err (FailedToReadHeader e), r')
      | (header, None, r') \<Rightarrow>
          if take saltSize header \<noteq> magicHeader then (Err InvalidFileFormat, r')
          else (Ok (drop saltSize (take headerSize header)), r'))"

text \<open>
  The two slices of the derived bytes are in range whenever \<open>pbkdf2.Key\<close> returns the 48
  bytes asked for; a shorter result would make the slice expression panic.
\<close>

definition deriveKeyAndIV :: "primitives \<Rightarrow> bytes \<Rightarrow> bytes \<Rightarrow> (bytes \<times> bytes) outcome" where
  "deriveKeyAndIV p password salt =
     (let keyIv = pbkdf2_Key p password salt pbkdf2Iterations (aes256KeySize + aes_BlockSize) sha256_New
      in if length keyIv < ivOffset + aes_BlockSize then Panic SliceBoundsOutOfRange
         else Ok (take aes256KeySize keyIv,
                  drop ivOffset (take (ivOffset + aes_BlockSize) keyIv)))"

text \<open>\<open>bytesRead\<close> is a Go \<open>int\<close> that is a byte count at every call, hence a \<open>nat\<close>.\<close>

definition removePKCS7Padding :: "bytes \<Rightarrow> nat \<Rightarrow> bytes outcome" where
  "removePKCS7Padding data bytesRead =
     (if bytesRead = 0 then Ok data
      else if length data \<le> bytesRead - 1 then Panic IndexOutOfRange
      else (let paddingLength = unat (data ! (bytesRead - 1))
            in if paddingLength > bytesRead \<or> paddingLength > aes_BlockSize then Ok data
               else Ok (take (bytesRead - paddingLength) data)))"

definition applyPKCS7Padding :: "bytes \<Rightarrow> bytes" where
  "applyPKCS7Padding data =
     (let padding = aes_BlockSize - length data mod aes_BlockSize;
          paddingBytes = replicate padding (of_nat padding :: byte)
      in data @ paddingBytes)"

section \<open>Decryption\<close>

text \<open>
  The functions below return the output sink next to their result, since bytes written
  before a failure stay written. \<open>processDecryptionBlock\<close> also returns the mode, whose
  chaining value \<open>CryptBlocks\<close> has advanced.
\<close>

definition processDecryptionBlock ::
  "primitives \<Rightarrow> writer \<Rightarrow> BlockMode \<Rightarrow> bytes \<Rightarrow> nat \<Rightarrow> bool \<Rightarrow> bytes
     \<Rightarrow> (bytes \<times> BlockMode) outcome \<times> writer" where
  "processDecryptionBlock p outputFile mode encryptedBuffer bytesRead isLastBlock previousDecryptedData =
     (case CryptBlocks p mode (take bytesRead encryptedBuffer) of
        Panic x \<Rightarrow> (Panic x, outputFile)
      | Err e \<Rightarrow> (Err e, outputFile)
      | Ok (currentDecrypted, mode') \<Rightarrow>
          (case (if length previousDecryptedData > 0 then Write outputFile previousDecryptedData
                 else (None, outputFile)) of
             (Some e, out1) \<Rightarrow> (Err (FailedToWriteDecryptedBlock e), out1)
           | (None, out1) \<Rightarrow>
               if isLastBlock then
                 (case removePKCS7Padding currentDecrypted bytesRead of
                    Panic x \<Rightarrow> (Panic x, out1)
                  | Err e \<Rightarrow> (Err e, out1)
                  | Ok finalData \<Rightarrow>
                      (case Write out1 finalData of
                         (Some e, out2) \<Rightarrow> (Err (FailedToWriteFinalBlock e), out2)
                       | (None, out2) \<Rightarrow> (Ok ([], mode'), out2)))
               else (Ok (currentDecrypted, mode'), out1)))"

definition handleEndOfFile :: "writer \<Rightarrow> bytes \<Rightarrow> unit outcome \<times> writer" where
  "handleEndOfFile outputFile previousDecryptedData =
     (if length previousDecryptedData > 0 then
        (case removePKCS7Padding previousDecryptedData (length previousDecryptedData) of
           Panic x \<Rightarrow> (Panic x, outputFile)
         | Err e \<Rightarrow> (Err e, outputFile)
         | Ok finalData \<Rightarrow>
             (case Write outputFile finalData of
                (Some e, out1) \<Rightarrow> (Err (FailedToWriteFinalBlock e), out1)
              | (None, out1) \<Rightarrow> (Ok (), out1)))
      else (Ok (), outputFile))"

text \<open>The \<^verbatim>\<open>for\<close> loop of \<open>DecryptStream\<close>.\<close>

function DecryptStream_loop ::
  "primitives \<Rightarrow> writer \<Rightarrow> reader \<Rightarrow> BlockMode \<Rightarrow> bytes \<Rightarrow> unit outcome \<times> writer" where
  "DecryptStream_loop p outputFile inputFile mode previousDecryptedData =
     (case ReadFull inputFile bufferSize of
        (encryptedBuffer, readErr, inputFile') \<Rightarrow>
          (let bytesRead = length encryptedBuffer;
               isEOF = (readErr = Some EOF \<or> readErr = Some ErrUnexpectedEOF);
               isLastBlock = (bytesRead < bufferSize \<or> isEOF)
           in if bytesRead = 0 then handleEndOfFile outputFile previousDecryptedData
              else (case processDecryptionBlock p outputFile mode encryptedBuffer bytesRead
                           isLastBlock previousDecryptedData of
                      (Panic x, out1) \<Rightarrow> (Panic x, out1)
                    | (Err e, out1) \<Rightarrow> (Err e, out1)
                    | (Ok (nextPreviousData, mode'), out1) \<Rightarrow>
                        if isLastBlock then (Ok (), out1)
                        else if readErr \<noteq> None \<and> \<not> isEOF
                        then (Err (FailedToReadEncryptedData (the readErr)), out1)
                        else DecryptStream_loop p out1 inputFile' mode' nextPreviousData)))"
  by pat_completeness auto
termination
proof (relation "measure (\<lambda>(p, out, inp, m, prev). length (remaining inp))", goal_cases)
  case 1
  show ?case by simp
next
  case (2 p outputFile inputFile mode previousDecryptedData x encryptedBuffer y readErr inputFile')
  then show ?case
    by (auto simp: ReadFull_def bufferSize_def split: if_splits)
qed

declare DecryptStream_loop.simps [simp del]

definition DecryptStream :: "primitives \<Rightarrow> writer \<Rightarrow> reader \<Rightarrow> bytes \<Rightarrow> unit outcome \<times> writer" where
  "DecryptStream p outputFile inputFile password =
     (case readAndValidateHeader inputFile of
        (Panic x, r1) \<Rightarrow> (Panic x, outputFile)
      | (Err e, r1) \<Rightarrow> (Err e, outputFile)
      | (Ok salt, r1) \<Rightarrow>
          (case deriveKeyAndIV p password salt of
             Panic x \<Rightarrow> (Panic x, outputFile)
           | Err e \<Rightarrow> (Err e, outputFile)
           | Ok (key, v) \<Rightarrow>
               (case NewCipher key of
                  Inl n \<Rightarrow> (Err (FailedToCreateCipher n), outputFile)
                | Inr b \<Rightarrow>
                    (case NewCBC Decrypter b v of
                       Panic x \<Rightarrow> (Panic x, outputFile)
                     | Err e \<Rightarrow> (Err e, outputFile)
                     | Ok mode \<Rightarrow> DecryptStream_loop p outputFile r1 mode []))))"

section \<open>Encryption\<close>

text \<open>\<open>rnd\<close> is \<^verbatim>\<open>crypto/rand.Reader\<close>, read as any other reader.\<close>

definition writeEncryptedHeader :: "reader \<Rightarrow> writer \<Rightarrow> bytes outcome \<times> writer" where
  "writeEncryptedHeader rnd w =
     (case ReadFull rnd saltSize of
        (salt, Some e, rnd') \<Rightarrow> (Err (ErrorGeneratingSalt e), w)
      | (salt, None, rnd') \<Rightarrow>
          (case Write w magicHeader of
             (Some e, w1) \<Rightarrow> (Err (ErrorWritingHeader e), w1)
           | (None, w1) \<Rightarrow>
               (case Write w1 salt of
                  (Some e, w2) \<Rightarrow> (Err (ErrorWritingSalt e), w2)
                | (None, w2) \<Rightarrow> (Ok salt, w2))))"

definition setupEncryption :: "primitives \<Rightarrow> bytes \<Rightarrow> bytes \<Rightarrow> BlockMode outcome" where
  "setupEncryption p password salt =
     (case deriveKeyAndIV p password salt of
        Panic x \<Rightarrow> Panic x
      | Err e \<Rightarrow> Err e
      | Ok (key, v) \<Rightarrow>
          (case NewCipher key of
             Inl n \<Rightarrow> Err (ErrorCreatingAESCipher n)
           | Inr b \<Rightarrow> NewCBC Encrypter b v))"

definition writeEncryptedBlock ::
  "primitives \<Rightarrow> writer \<Rightarrow> BlockMode \<Rightarrow> bytes \<Rightarrow> BlockMode outcome \<times> writer" where
  "writeEncryptedBlock p w cbc data =
     (case CryptBlocks p cbc data of
        Panic x \<Rightarrow> (Panic x, w)
      | Err e \<Rightarrow> (Err e, w)
      | Ok (encBlock, cbc') \<Rightarrow>
          (case Write w encBlock of
             (Some e, w1) \<Rightarrow> (Err (ErrorWritingEncryptedBlock e), w1)
           | (None, w1) \<Rightarrow> (Ok cbc', w1)))"

definition processFinalBlock ::
  "primitives \<Rightarrow> writer \<Rightarrow> BlockMode \<Rightarrow> bytes \<Rightarrow> nat \<Rightarrow> bool \<Rightarrow> BlockMode outcome \<times> writer" where
  "processFinalBlock p w cbc data bytesRead hasWrittenData =
     (if bytesRead = 0 then
        (if \<not> hasWrittenData then
           (let paddedBlock = applyPKCS7Padding (take 0 data)
            in writeEncryptedBlock p w cbc paddedBlock)
         else
           (let padding = replicate aes_BlockSize (of_nat aes_BlockSize :: byte)
            in writeEncryptedBlock p w cbc padding))
      else
        (let paddedBlock = applyPKCS7Padding (take bytesRead data)
         in writeEncryptedBlock p w cbc paddedBlock))"

text \<open>The \<^verbatim>\<open>for\<close> loop of \<open>EncryptStream\<close>.\<close>

function EncryptStream_loop ::
  "primitives \<Rightarrow> writer \<Rightarrow> reader \<Rightarrow> BlockMode \<Rightarrow> bool \<Rightarrow> unit outcome \<times> writer" where
  "EncryptStream_loop p w r cbc hasWrittenData =
     (case ReadFull r bufferSize of
        (readBuffer, readErr, r') \<Rightarrow>
          (let bytesRead = length readBuffer;
               isEOF = (readErr = Some EOF \<or> readErr = Some ErrUnexpectedEOF);
               isLastBlock = (bytesRead < bufferSize \<or> isEOF)
           in if isLastBlock then
                (case processFinalBlock p w cbc readBuffer bytesRead hasWrittenData of
                   (Panic x, w1) \<Rightarrow> (Panic x, w1)
                 | (Err e, w1) \<Rightarrow> (Err e, w1)
                 | (Ok cbc', w1) \<Rightarrow> (Ok (), w1))
              else
                (case writeEncryptedBlock p w cbc (take bytesRead readBuffer) of
                   (Panic x, w1) \<Rightarrow> (Panic x, w1)
                 | (Err e, w1) \<Rightarrow> (Err e, w1)
                 | (Ok cbc', w1) \<Rightarrow>
                     if readErr \<noteq> None \<and> \<not> isEOF
                     then (Err (FailedToReadInputData (the readErr)), w1)
                     else EncryptStream_loop p w1 r' cbc' True)))"
  by pat_completeness auto
termination
proof (relation "measure (\<lambda>(p, w, r, m, h). length (remaining r))", goal_cases)
  case 1
  show ?case by simp
next
  case (2 p w r cbc hasWrittenData x readBuffer y readErr r')
  then show ?case
    by (auto simp: ReadFull_def bufferSize_def split: if_splits)
qed

declare EncryptStream_loop.simps [simp del]

definition EncryptStream ::
  "primitives \<Rightarrow> reader \<Rightarrow> writer \<Rightarrow> reader \<Rightarrow> bytes \<Rightarrow> unit outcome \<times> writer" where
  "EncryptStream p rnd w r password =
     (case writeEncryptedHeader rnd w of
        (Panic x, w1) \<Rightarrow> (Panic x, w1)
      | (Err e, w1) \<Rightarrow> (Err e, w1)
      | (Ok salt, w1) \<Rightarrow>
          (case setupEncryption p password salt of
             Panic x \<Rightarrow> (Panic x, w1)
           | Err e \<Rightarrow> (Err e, w1)
           | Ok cbc \<Rightarrow> EncryptStream_loop p w1 r cbc False))"

section \<open>Vocabulary of the specification\<close>

text \<open>
  The specification sorts failures into kinds. Following its words: a \<open>FormatError\<close> is a
  header that is missing, truncated or has the wrong magic tag; an \<open>IOError\<close> is a failure
  of an underlying read or write; a \<open>CipherSetupError\<close> is a key the block cipher refuses.
\<close>

datatype error_kind = FormatError | IOError | CipherSetupError

fun is_end_of_input :: "io_error \<Rightarrow> bool" where
  "is_end_of_input EOF = True"
| "is_end_of_input ErrUnexpectedEOF = True"
| "is_end_of_input e = False"

fun kind_of :: "error \<Rightarrow> error_kind" where
  "kind_of (FailedToReadHeader e) = (if is_end_of_input e then FormatError else IOError)"
| "kind_of InvalidFileFormat = FormatError"
| "kind_of (FailedToCreateCipher n) = CipherSetupError"
| "kind_of (ErrorCreatingAESCipher n) = CipherSetupError"
| "kind_of e = IOError"

text \<open>The bytes left of a whole chunk once its padding is stripped, as \<open>handleEndOfFile\<close> strips it.\<close>

definition strip_final :: "bytes \<Rightarrow> bytes" where
  "strip_final x = (case removePKCS7Padding x (length x) of Ok y \<Rightarrow> y | Err e \<Rightarrow> x | Panic q \<Rightarrow> x)"

text \<open>An in-memory source that ends with \<open>EOF\<close>, and an empty sink without limit.\<close>

definition source :: "bytes \<Rightarrow> reader" where
  "source bs = \<lparr>remaining = bs, at_end = EOF\<rparr>"

definition sink :: writer where
  "sink = \<lparr>written = [], room = None\<rparr>"

text \<open>
  A stand-in for the library primitives, small enough to run the model on concrete inputs:
  a key derivation that repeats one byte computed from password and salt, and a block
  transformation that adds a byte computed from the key to every byte of the block.
\<close>

definition sample_primitives :: primitives where
  "sample_primitives =
     \<lparr>pbkdf2_Key = (\<lambda>password salt iter keyLen h. replicate keyLen (sum_list password + sum_list salt + 1)),
      aes_Encrypt = (\<lambda>k b. map (\<lambda>x. x + sum_list k) b),
      aes_Decrypt = (\<lambda>k b. map (\<lambda>x. x - sum_list k) b)\<rparr>"

section \<open>Padding\<close>

lemma unat_pad_byte: "n \<le> 16 \<Longrightarrow> unat (of_nat n :: byte) = n"
  by (simp add: unat_of_nat)

lemma length_applyPKCS7Padding:
  "length (applyPKCS7Padding D) = 16 * (length D div 16 + 1)"
  by (simp add: applyPKCS7Padding_def Let_def aes_BlockSize_def) presburger

lemma pad_roundtrip:
  "removePKCS7Padding (applyPKCS7Padding D) (length (applyPKCS7Padding D)) = Ok D"
proof -
  define k where "k = 16 - length D mod 16"
  have k: "1 \<le> k" "k \<le> 16" by (simp_all add: k_def)
  have ap: "applyPKCS7Padding D = D @ replicate k (of_nat k)"
    by (simp add: applyPKCS7Padding_def Let_def aes_BlockSize_def k_def)
  have len: "length (applyPKCS7Padding D) = length D + k" by (simp add: ap)
  have "length D + k - 1 = length D + (k - 1)" using k by arith
  then have lastb: "(D @ replicate k (of_nat k :: byte)) ! (length D + k - 1) = of_nat k"
    using k by (simp only: nth_append_length_plus) simp
  show ?thesis
    unfolding len unfolding ap removePKCS7Padding_def Let_def lastb
    using k by (simp add: unat_pad_byte aes_BlockSize_def)
qed


section \<open>Chaining over several calls\<close>

lemma length_xor_bytes: "length (xor_bytes x y) = min (length x) (length y)"
  by (simp add: xor_bytes_def)

lemma xor_bytes_cancel: "length x = length y \<Longrightarrow> xor_bytes (xor_bytes x y) y = x"
  unfolding xor_bytes_def
  by (induction x y rule: list_induct2) (simp_all add: xor.assoc)

lemma aligned_nonempty: "16 dvd length (xs::'a list) \<Longrightarrow> xs \<noteq> [] \<Longrightarrow> 16 \<le> length xs"
  by (cases "length xs = 0") (auto dest: dvd_imp_le)

lemma aligned_drop: "16 dvd length (xs::'a list) \<Longrightarrow> 16 dvd length (drop 16 xs)"
  by (cases "xs = []") (auto dest: aligned_nonempty)

lemma length_cbc_encrypt:
  assumes E: "\<forall>b. length b = 16 \<longrightarrow> length (E b) = 16"
  shows "length v = 16 \<Longrightarrow> 16 dvd length src \<Longrightarrow> length (cbc_encrypt E v src) = length src"
proof (induction "length src" arbitrary: src v rule: less_induct)
  case less
  show ?case
  proof (cases "src = []")
    case True
    then show ?thesis by (simp add: cbc_encrypt.simps)
  next
    case False
    have ge: "16 \<le> length src" using False less.prems by (simp add: aligned_nonempty)
    define c where "c = E (xor_bytes (take 16 src) v)"
    have lc: "length c = 16"
      using ge less.prems E by (simp add: c_def length_xor_bytes)
    have "length (cbc_encrypt E c (drop 16 src)) = length (drop 16 src)"
      using less.hyps [of "drop 16 src" c] ge lc less.prems(2) by (simp add: aligned_drop)
    then show ?thesis
      using False ge lc by (subst cbc_encrypt.simps) (simp add: Let_def c_def [symmetric])
  qed
qed

lemma length_cbc_decrypt:
  assumes D: "\<forall>b. length b = 16 \<longrightarrow> length (D b) = 16"
  shows "length v = 16 \<Longrightarrow> 16 dvd length src \<Longrightarrow> length (cbc_decrypt D v src) = length src"
proof (induction "length src" arbitrary: src v rule: less_induct)
  case less
  show ?case
  proof (cases "src = []")
    case True
    then show ?thesis by (simp add: cbc_decrypt.simps)
  next
    case False
    have ge: "16 \<le> length src" using False less.prems by (simp add: aligned_nonempty)
    have lx: "length (xor_bytes (D (take 16 src)) v) = 16"
      using ge less.prems D by (simp add: length_xor_bytes)
    have "length (cbc_decrypt D (take 16 src) (drop 16 src)) = length (drop 16 src)"
      using less.hyps [of "drop 16 src" "take 16 src"] ge less.prems(2) by (simp add: aligned_drop)
    then show ?thesis
      using False ge lx by (subst cbc_decrypt.simps) simp
  qed
qed

lemma next_iv_aligned:
  "16 dvd length ct \<Longrightarrow> length v = 16 \<Longrightarrow> length (next_iv v ct) = 16"
  by (cases "ct = []") (auto simp: next_iv_def dest: aligned_nonempty)

lemma next_iv_step:
  assumes "length c = 16" "16 dvd length rest"
  shows "next_iv v (c @ rest) = next_iv c rest"
proof (cases "rest = []")
  case True
  then show ?thesis using assms by (auto simp: next_iv_def)
next
  case False
  then have "16 \<le> length rest" using assms by (simp add: aligned_nonempty)
  then show ?thesis using False assms by (simp add: next_iv_def)
qed

lemma cbc_encrypt_append:
  assumes E: "\<forall>b. length b = 16 \<longrightarrow> length (E b) = 16"
  shows "length v = 16 \<Longrightarrow> 16 dvd length a \<Longrightarrow>
         cbc_encrypt E v (a @ b) = cbc_encrypt E v a @ cbc_encrypt E (next_iv v (cbc_encrypt E v a)) b"
proof (induction "length a" arbitrary: a v rule: less_induct)
  case less
  show ?case
  proof (cases "a = []")
    case True
    then show ?thesis by (simp add: cbc_encrypt.simps [of E v "[]"] next_iv_def)
  next
    case False
    have ge: "16 \<le> length a" using False less.prems by (simp add: aligned_nonempty)
    define c where "c = E (xor_bytes (take 16 a) v)"
    define rest where "rest = cbc_encrypt E c (drop 16 a)"
    have lc: "length c = 16"
      using ge less.prems E by (simp add: c_def length_xor_bytes)
    have al: "16 dvd length (drop 16 a)" using less.prems(2) by (rule aligned_drop)
    have lrest: "16 dvd length rest"
      using length_cbc_encrypt [OF E lc al] al by (simp add: rest_def)
    have ea: "cbc_encrypt E v a = c @ rest"
      using False by (subst cbc_encrypt.simps) (simp add: Let_def c_def rest_def)
    have IH: "cbc_encrypt E c (drop 16 a @ b) = rest @ cbc_encrypt E (next_iv c rest) b"
      using less.hyps [of "drop 16 a" c] ge lc al by (simp add: rest_def)
    have "cbc_encrypt E v (a @ b) = c @ cbc_encrypt E c (drop 16 a @ b)"
      using False ge by (subst cbc_encrypt.simps) (simp add: Let_def c_def)
    then show ?thesis
      by (simp add: ea IH next_iv_step [OF lc lrest])
  qed
qed

lemma cbc_decrypt_append:
  "16 dvd length a \<Longrightarrow>
     cbc_decrypt D v (a @ b) = cbc_decrypt D v a @ cbc_decrypt D (next_iv v a) b"
proof (induction "length a" arbitrary: a v rule: less_induct)
  case less
  show ?case
  proof (cases "a = []")
    case True
    then show ?thesis by (simp add: cbc_decrypt.simps [of D v "[]"] next_iv_def)
  next
    case False
    have ge: "16 \<le> length a" using False less.prems by (simp add: aligned_nonempty)
    have al: "16 dvd length (drop 16 a)" using less.prems by (rule aligned_drop)
    have IH: "cbc_decrypt D (take 16 a) (drop 16 a @ b) =
                cbc_decrypt D (take 16 a) (drop 16 a) @ cbc_decrypt D (next_iv (take 16 a) (drop 16 a)) b"
      using less.hyps [of "drop 16 a" "take 16 a"] ge al by simp
    have nx: "next_iv (take 16 a) (drop 16 a) = next_iv v a"
      using next_iv_step [of "take 16 a" "drop 16 a" v] ge al by simp
    have l: "cbc_decrypt D v (a @ b) =
             xor_bytes (D (take 16 a)) v @ cbc_decrypt D (take 16 a) (drop 16 a @ b)"
      using False ge by (subst cbc_decrypt.simps) simp
    have r: "cbc_decrypt D v a = xor_bytes (D (take 16 a)) v @ cbc_decrypt D (take 16 a) (drop 16 a)"
      using False by (subst cbc_decrypt.simps) simp
    show ?thesis by (simp add: l r IH nx)
  qed
qed

lemma cbc_decrypt_encrypt:
  assumes E: "\<forall>b. length b = 16 \<longrightarrow> length (E b) = 16"
    and DE: "\<forall>b. length b = 16 \<longrightarrow> D (E b) = b"
  shows "length v = 16 \<Longrightarrow> 16 dvd length x \<Longrightarrow> cbc_decrypt D v (cbc_encrypt E v x) = x"
proof (induction "length x" arbitrary: x v rule: less_induct)
  case less
  show ?case
  proof (cases "x = []")
    case True
    then show ?thesis by (simp add: cbc_encrypt.simps [of E v "[]"] cbc_decrypt.simps [of D v "[]"])
  next
    case False
    have ge: "16 \<le> length x" using False less.prems by (simp add: aligned_nonempty)
    define u where "u = xor_bytes (take 16 x) v"
    define c where "c = E u"
    define rest where "rest = cbc_encrypt E c (drop 16 x)"
    have lu: "length u = 16" using ge less.prems by (simp add: u_def length_xor_bytes)
    have lc: "length c = 16" using lu E by (simp add: c_def)
    have al: "16 dvd length (drop 16 x)" using less.prems(2) by (rule aligned_drop)
    have ea: "cbc_encrypt E v x = c @ rest"
      using False by (subst cbc_encrypt.simps) (simp add: Let_def c_def u_def rest_def)
    have IH: "cbc_decrypt D c rest = drop 16 x"
      using less.hyps [of "drop 16 x" c] ge lc al by (simp add: rest_def)
    have Dc: "D c = u" using lu DE by (simp add: c_def)
    have ux: "xor_bytes u v = take 16 x"
      using ge less.prems(1) by (simp add: u_def xor_bytes_cancel)
    have "cbc_decrypt D v (c @ rest) = xor_bytes (D c) v @ cbc_decrypt D c rest"
      using lc by (subst cbc_decrypt.simps) auto
    then show ?thesis by (simp add: ea IH Dc ux)
  qed
qed

section \<open>One turn of the decryption loop\<close>

lemma bufferSize_pos: "0 < bufferSize" by (simp add: bufferSize_def)
lemma bufferSize_aligned: "16 dvd bufferSize" by (simp add: bufferSize_def)
lemma bufferSize_ge16: "16 \<le> bufferSize" by (simp add: bufferSize_def)

lemma last_index_in_range: "x \<noteq> [] \<Longrightarrow> \<not> length x \<le> length x - 1"
  by (cases x) simp_all

lemma removePKCS7Padding_whole: "removePKCS7Padding x (length x) = Ok (strip_final x)"
proof (cases "x = []")
  case True
  then show ?thesis by (simp add: strip_final_def removePKCS7Padding_def)
next
  case False
  show ?thesis
    unfolding strip_final_def removePKCS7Padding_def Let_def
    using False last_index_in_range [OF False] by (simp split: if_splits)
qed

lemma strip_final_Nil: "strip_final [] = []"
  by (simp add: strip_final_def removePKCS7Padding_def)

lemma strip_final_append:
  assumes "16 \<le> length b"
  shows "strip_final (a @ b) = a @ strip_final b"
proof -
  have ne: "b \<noteq> []" "a @ b \<noteq> []" using assms by auto
  have "length a + length b - 1 = length a + (length b - 1)" using assms by arith
  then have nth: "(a @ b) ! (length (a @ b) - 1) = b ! (length b - 1)"
    by (simp only: length_append nth_append_length_plus)
  define k where "k = unat (b ! (length b - 1))"
  have A: "removePKCS7Padding (a @ b) (length (a @ b)) =
             (if k > length (a @ b) \<or> k > 16 then Ok (a @ b) else Ok (take (length (a @ b) - k) (a @ b)))"
    unfolding removePKCS7Padding_def Let_def nth k_def [symmetric]
    using last_index_in_range [OF ne(2)] ne(2) by (simp add: aes_BlockSize_def)
  have B: "removePKCS7Padding b (length b) =
             (if k > length b \<or> k > 16 then Ok b else Ok (take (length b - k) b))"
    unfolding removePKCS7Padding_def Let_def k_def [symmetric]
    using last_index_in_range [OF ne(1)] ne(1) by (simp add: aes_BlockSize_def)
  show ?thesis
    unfolding strip_final_def A B using assms by auto
qed

lemma DecryptStream_loop_eof:
  "remaining r = [] \<Longrightarrow> DecryptStream_loop p w r m prev = handleEndOfFile w prev"
  by (subst DecryptStream_loop.simps) (simp add: ReadFull_def bufferSize_pos Let_def)

lemma DecryptStream_loop_short:
  "remaining r \<noteq> [] \<Longrightarrow> length (remaining r) < bufferSize \<Longrightarrow>
   DecryptStream_loop p w r m prev =
     (case processDecryptionBlock p w m (remaining r) (length (remaining r)) True prev of
        (Panic x, o1) \<Rightarrow> (Panic x, o1)
      | (Err e, o1) \<Rightarrow> (Err e, o1)
      | (Ok z, o1) \<Rightarrow> (Ok (), o1))"
  by (subst DecryptStream_loop.simps)
     (auto simp: ReadFull_def Let_def split: prod.splits outcome.splits)

lemma DecryptStream_loop_full:
  "bufferSize \<le> length (remaining r) \<Longrightarrow>
   DecryptStream_loop p w r m prev =
     (case processDecryptionBlock p w m (take bufferSize (remaining r)) bufferSize False prev of
        (Panic x, o1) \<Rightarrow> (Panic x, o1)
      | (Err e, o1) \<Rightarrow> (Err e, o1)
      | (Ok (nextPrev, m'), o1) \<Rightarrow>
          DecryptStream_loop p o1 (r\<lparr>remaining := drop bufferSize (remaining r)\<rparr>) m' nextPrev)"
  using bufferSize_pos
  by (subst DecryptStream_loop.simps)
     (auto simp: ReadFull_def Let_def min_absorb2 split: prod.splits outcome.splits)

lemma Write_unbounded: "room w = None \<Longrightarrow> Write w bs = (None, w\<lparr>written := written w @ bs\<rparr>)"
  by (simp add: Write_def)

lemma CryptBlocks_unaligned:
  "\<not> 16 dvd length src \<Longrightarrow> CryptBlocks p m src = Panic InputNotFullBlocks"
  by (simp add: CryptBlocks_def aes_BlockSize_def dvd_eq_mod_eq_0)

lemma CryptBlocks_decrypt:
  "16 dvd length src \<Longrightarrow> dir m = Decrypter \<Longrightarrow>
   CryptBlocks p m src =
     Ok (cbc_decrypt (aes_Decrypt p (block m)) (iv m) src, m\<lparr>iv := next_iv (iv m) src\<rparr>)"
  by (simp add: CryptBlocks_def aes_BlockSize_def dvd_eq_mod_eq_0)

lemma CryptBlocks_encrypt:
  "16 dvd length src \<Longrightarrow> dir m = Encrypter \<Longrightarrow>
   CryptBlocks p m src =
     Ok (cbc_encrypt (aes_Encrypt p (block m)) (iv m) src,
         m\<lparr>iv := next_iv (iv m) (cbc_encrypt (aes_Encrypt p (block m)) (iv m) src)\<rparr>)"
  by (simp add: CryptBlocks_def aes_BlockSize_def dvd_eq_mod_eq_0 Let_def)

lemma processDecryptionBlock_unaligned:
  "\<not> 16 dvd length buf \<Longrightarrow>
   processDecryptionBlock p w m buf (length buf) isLast prev = (Panic InputNotFullBlocks, w)"
  by (simp add: processDecryptionBlock_def CryptBlocks_unaligned)

lemma processDecryptionBlock_last:
  assumes "16 dvd length buf" "dir m = Decrypter" "room w = None"
    and "length (cbc_decrypt (aes_Decrypt p (block m)) (iv m) buf) = length buf"
  shows "processDecryptionBlock p w m buf (length buf) True prev =
           (Ok ([], m\<lparr>iv := next_iv (iv m) buf\<rparr>),
            w\<lparr>written := written w @ prev @
                 strip_final (cbc_decrypt (aes_Decrypt p (block m)) (iv m) buf)\<rparr>)"
proof -
  let ?dec = "cbc_decrypt (aes_Decrypt p (block m)) (iv m) buf"
  have rm: "removePKCS7Padding ?dec (length buf) = Ok (strip_final ?dec)"
    using removePKCS7Padding_whole [of ?dec] assms(4) by simp
  show ?thesis
    using assms(1-3)
    by (simp add: processDecryptionBlock_def CryptBlocks_decrypt rm Write_unbounded)
qed

lemma processDecryptionBlock_more:
  assumes "16 dvd length buf" "dir m = Decrypter" "room w = None"
  shows "processDecryptionBlock p w m buf (length buf) False prev =
           (Ok (cbc_decrypt (aes_Decrypt p (block m)) (iv m) buf, m\<lparr>iv := next_iv (iv m) buf\<rparr>),
            w\<lparr>written := written w @ prev\<rparr>)"
  using assms
  by (simp add: processDecryptionBlock_def CryptBlocks_decrypt Write_unbounded)

lemma handleEndOfFile_unbounded:
  "room w = None \<Longrightarrow>
   handleEndOfFile w prev = (Ok (), w\<lparr>written := written w @ strip_final prev\<rparr>)"
  by (simp add: handleEndOfFile_def removePKCS7Padding_whole Write_unbounded strip_final_Nil)

lemma DecryptStream_loop_aligned:
  assumes D: "\<forall>b. length b = 16 \<longrightarrow> length (aes_Decrypt p k b) = 16"
  shows "dir m = Decrypter \<Longrightarrow> block m = k \<Longrightarrow> length (iv m) = 16 \<Longrightarrow> room w = None \<Longrightarrow>
         16 dvd length (remaining r) \<Longrightarrow>
         DecryptStream_loop p w r m prev =
           (Ok (), w\<lparr>written := written w @
                      strip_final (prev @ cbc_decrypt (aes_Decrypt p k) (iv m) (remaining r))\<rparr>)"
proof (induction "length (remaining r)" arbitrary: r w m prev rule: less_induct)
  case less
  let ?C = "remaining r"
  let ?D = "aes_Decrypt p k"
  have lenC: "length (cbc_decrypt ?D (iv m) ?C) = length ?C"
    using length_cbc_decrypt [OF D] less.prems by simp
  consider (eof) "?C = []" | (short) "?C \<noteq> []" "length ?C < bufferSize" | (full) "bufferSize \<le> length ?C"
    by fastforce
  then show ?case
  proof cases
    case eof
    then show ?thesis
      using less.prems
      by (simp add: DecryptStream_loop_eof handleEndOfFile_unbounded cbc_decrypt.simps [of _ _ "[]"])
  next
    case short
    have ge: "16 \<le> length (cbc_decrypt ?D (iv m) ?C)"
      using lenC short less.prems by (simp add: aligned_nonempty)
    show ?thesis
      using short less.prems lenC
      by (simp add: DecryptStream_loop_short processDecryptionBlock_last strip_final_append [OF ge])
  next
    case full
    let ?c1 = "take bufferSize ?C"
    let ?rest = "drop bufferSize ?C"
    let ?m' = "m\<lparr>iv := next_iv (iv m) ?c1\<rparr>"
    let ?w' = "w\<lparr>written := written w @ prev\<rparr>"
    let ?r' = "r\<lparr>remaining := ?rest\<rparr>"
    have l1: "length ?c1 = bufferSize" using full by simp
    have a1: "16 dvd length ?c1" using l1 bufferSize_aligned by simp
    have arest: "16 dvd length ?rest"
      using less.prems(5) full bufferSize_aligned by simp
    have step: "DecryptStream_loop p w r m prev =
                  DecryptStream_loop p ?w' ?r' ?m' (cbc_decrypt ?D (iv m) ?c1)"
      using processDecryptionBlock_more [OF a1 less.prems(1,4), of p prev] l1 less.prems(2)
      by (simp add: DecryptStream_loop_full [OF full])
    have liv: "length (iv ?m') = 16"
      using next_iv_aligned [OF a1 less.prems(3)] by simp
    have IH: "DecryptStream_loop p ?w' ?r' ?m' (cbc_decrypt ?D (iv m) ?c1) =
                (Ok (), ?w'\<lparr>written := written ?w' @
                    strip_final (cbc_decrypt ?D (iv m) ?c1 @ cbc_decrypt ?D (iv ?m') (remaining ?r'))\<rparr>)"
      using less.hyps [of ?r' ?m' ?w' "cbc_decrypt ?D (iv m) ?c1"] full bufferSize_pos
        less.prems liv arest by simp
    have join: "cbc_decrypt ?D (iv m) ?c1 @ cbc_decrypt ?D (iv ?m') (remaining ?r') =
                  cbc_decrypt ?D (iv m) ?C"
      using cbc_decrypt_append [OF a1, of ?D "iv m" ?rest] by simp
    have ge: "16 \<le> length (cbc_decrypt ?D (iv m) ?C)"
      using lenC full bufferSize_ge16 by simp
    show ?thesis
      unfolding step IH join by (simp add: strip_final_append [OF ge])
  qed
qed

lemma DecryptStream_loop_unaligned:
  "dir m = Decrypter \<Longrightarrow> room w = None \<Longrightarrow> \<not> 16 dvd length (remaining r) \<Longrightarrow>
     fst (DecryptStream_loop p w r m prev) = Panic InputNotFullBlocks"
proof (induction "length (remaining r)" arbitrary: r w m prev rule: less_induct)
  case less
  let ?C = "remaining r"
  have ne: "?C \<noteq> []" using less.prems by auto
  show ?case
  proof (cases "length ?C < bufferSize")
    case True
    then show ?thesis
      using ne less.prems
      by (simp add: DecryptStream_loop_short processDecryptionBlock_unaligned)
  next
    case False
    then have full: "bufferSize \<le> length ?C" by simp
    let ?c1 = "take bufferSize ?C"
    let ?rest = "drop bufferSize ?C"
    let ?m' = "m\<lparr>iv := next_iv (iv m) ?c1\<rparr>"
    let ?w' = "w\<lparr>written := written w @ prev\<rparr>"
    let ?r' = "r\<lparr>remaining := ?rest\<rparr>"
    have l1: "length ?c1 = bufferSize" using full by simp
    have a1: "16 dvd length ?c1" using l1 bufferSize_aligned by simp
    have arest: "\<not> 16 dvd length ?rest"
    proof
      assume "16 dvd length ?rest"
      then have "16 dvd length ?rest + bufferSize" using bufferSize_aligned by (rule dvd_add)
      then show False using less.prems(3) full by simp
    qed
    have step: "DecryptStream_loop p w r m prev =
                  DecryptStream_loop p ?w' ?r' ?m' (cbc_decrypt (aes_Decrypt p (block m)) (iv m) ?c1)"
      using processDecryptionBlock_more [OF a1 less.prems(1,2), of p prev] l1
      by (simp add: DecryptStream_loop_full [OF full])
    show ?thesis
      unfolding step
      using less.hyps [of ?r' ?m' ?w'] full bufferSize_pos less.prems(1,2) arest by simp
  qed
qed

section \<open>One turn of the encryption loop\<close>

lemma applyPKCS7Padding_aligned: "16 dvd length (applyPKCS7Padding x)"
  by (simp add: length_applyPKCS7Padding)

lemma applyPKCS7Padding_append:
  "16 dvd length a \<Longrightarrow> applyPKCS7Padding (a @ b) = a @ applyPKCS7Padding b"
  by (auto simp: applyPKCS7Padding_def Let_def aes_BlockSize_def mod_add_eq dvd_eq_mod_eq_0 mod_add_left_eq
      simp flip: mod_add_eq)

lemma applyPKCS7Padding_Nil: "applyPKCS7Padding [] = replicate 16 16"
  by (simp add: applyPKCS7Padding_def aes_BlockSize_def)

lemma writeEncryptedBlock_unbounded:
  "16 dvd length x \<Longrightarrow> dir m = Encrypter \<Longrightarrow> room w = None \<Longrightarrow>
   writeEncryptedBlock p w m x =
     (Ok (m\<lparr>iv := next_iv (iv m) (cbc_encrypt (aes_Encrypt p (block m)) (iv m) x)\<rparr>),
      w\<lparr>written := written w @ cbc_encrypt (aes_Encrypt p (block m)) (iv m) x\<rparr>)"
  by (simp add: writeEncryptedBlock_def CryptBlocks_encrypt Write_unbounded)

lemma processFinalBlock_pads:
  "length x < bufferSize \<Longrightarrow>
   processFinalBlock p w m x (length x) h = writeEncryptedBlock p w m (applyPKCS7Padding x)"
  by (auto simp: processFinalBlock_def Let_def applyPKCS7Padding_Nil aes_BlockSize_def)

lemma EncryptStream_loop_last:
  "length (remaining r) < bufferSize \<Longrightarrow>
   EncryptStream_loop p w r m h =
     (case processFinalBlock p w m (remaining r) (length (remaining r)) h of
        (Panic x, w1) \<Rightarrow> (Panic x, w1)
      | (Err e, w1) \<Rightarrow> (Err e, w1)
      | (Ok m', w1) \<Rightarrow> (Ok (), w1))"
  by (subst EncryptStream_loop.simps) (simp add: ReadFull_def Let_def)

lemma EncryptStream_loop_full:
  "bufferSize \<le> length (remaining r) \<Longrightarrow>
   EncryptStream_loop p w r m h =
     (case writeEncryptedBlock p w m (take bufferSize (remaining r)) of
        (Panic x, w1) \<Rightarrow> (Panic x, w1)
      | (Err e, w1) \<Rightarrow> (Err e, w1)
      | (Ok m', w1) \<Rightarrow>
          EncryptStream_loop p w1 (r\<lparr>remaining := drop bufferSize (remaining r)\<rparr>) m' True)"
  by (subst EncryptStream_loop.simps)
     (auto simp: ReadFull_def Let_def min_absorb2 split: prod.splits outcome.splits)

lemma EncryptStream_loop_unbounded:
  assumes E: "\<forall>b. length b = 16 \<longrightarrow> length (aes_Encrypt p k b) = 16"
  shows "dir m = Encrypter \<Longrightarrow> block m = k \<Longrightarrow> length (iv m) = 16 \<Longrightarrow> room w = None \<Longrightarrow>
         EncryptStream_loop p w r m h =
           (Ok (), w\<lparr>written := written w @
                      cbc_encrypt (aes_Encrypt p k) (iv m) (applyPKCS7Padding (remaining r))\<rparr>)"
proof (induction "length (remaining r)" arbitrary: r w m h rule: less_induct)
  case less
  let ?P = "remaining r"
  let ?E = "aes_Encrypt p k"
  show ?case
  proof (cases "length ?P < bufferSize")
    case True
    show ?thesis
      using less.prems
      by (simp add: EncryptStream_loop_last [OF True] processFinalBlock_pads [OF True]
          writeEncryptedBlock_unbounded applyPKCS7Padding_aligned)
  next
    case False
    then have full: "bufferSize \<le> length ?P" by simp
    let ?c1 = "take bufferSize ?P"
    let ?rest = "drop bufferSize ?P"
    let ?ct = "cbc_encrypt ?E (iv m) ?c1"
    let ?m' = "m\<lparr>iv := next_iv (iv m) ?ct\<rparr>"
    let ?w' = "w\<lparr>written := written w @ ?ct\<rparr>"
    let ?r' = "r\<lparr>remaining := ?rest\<rparr>"
    have l1: "length ?c1 = bufferSize" using full by simp
    have a1: "16 dvd length ?c1" using l1 bufferSize_aligned by simp
    have act: "16 dvd length ?ct"
      using length_cbc_encrypt [OF E less.prems(3) a1] a1 by simp
    have liv: "length (iv ?m') = 16"
      using next_iv_aligned [OF act less.prems(3)] by simp
    have step: "EncryptStream_loop p w r m h = EncryptStream_loop p ?w' ?r' ?m' True"
      using writeEncryptedBlock_unbounded [OF a1 less.prems(1,4), of p] less.prems(2)
      by (simp add: EncryptStream_loop_full [OF full])
    have IH: "EncryptStream_loop p ?w' ?r' ?m' True =
                (Ok (), ?w'\<lparr>written := written ?w' @
                     cbc_encrypt ?E (iv ?m') (applyPKCS7Padding (remaining ?r'))\<rparr>)"
      using less.hyps [of ?r' ?m' ?w' True] full bufferSize_pos less.prems liv by simp
    have "applyPKCS7Padding ?P = ?c1 @ applyPKCS7Padding ?rest"
      using applyPKCS7Padding_append [OF a1, of ?rest] by simp
    then have join: "cbc_encrypt ?E (iv m) (applyPKCS7Padding ?P) =
                 ?ct @ cbc_encrypt ?E (iv ?m') (applyPKCS7Padding (remaining ?r'))"
      using cbc_encrypt_append [OF E less.prems(3) a1, of "applyPKCS7Padding ?rest"] by simp
    show ?thesis
      unfolding step IH join by simp
  qed
qed

section \<open>The two streams as a whole\<close>

lemma length_magicHeader: "length magicHeader = 8"
  by (simp add: magicHeader_def)

lemma deriveKeyAndIV_lengths:
  "deriveKeyAndIV p password salt = Ok (key, v) \<Longrightarrow> length key = 32 \<and> length v = 16"
  by (auto simp: deriveKeyAndIV_def Let_def aes256KeySize_def aes_BlockSize_def ivOffset_def
      split: if_splits)

lemma readAndValidateHeader_valid:
  "remaining r = magicHeader @ salt @ body \<Longrightarrow> length salt = 8 \<Longrightarrow>
   readAndValidateHeader r = (Ok salt, r\<lparr>remaining := body\<rparr>)"
  by (simp add: readAndValidateHeader_def ReadFull_def headerSize_def saltSize_def length_magicHeader)

lemma DecryptStream_valid_header:
  assumes "remaining r = magicHeader @ salt @ body" "length salt = 8"
    and "deriveKeyAndIV p password salt = Ok (key, v)"
  shows "DecryptStream p w r password =
           DecryptStream_loop p w (r\<lparr>remaining := body\<rparr>) \<lparr>dir = Decrypter, block = key, iv = v\<rparr> []"
  using deriveKeyAndIV_lengths [OF assms(3)]
  by (simp add: DecryptStream_def readAndValidateHeader_valid [OF assms(1,2)] assms(3)
      NewCipher_def NewCBC_def aes_BlockSize_def)

lemma writeEncryptedHeader_unbounded:
  "8 \<le> length (remaining rnd) \<Longrightarrow> room w = None \<Longrightarrow>
   writeEncryptedHeader rnd w =
     (Ok (take 8 (remaining rnd)), w\<lparr>written := written w @ magicHeader @ take 8 (remaining rnd)\<rparr>)"
  by (simp add: writeEncryptedHeader_def ReadFull_def saltSize_def Write_unbounded)

lemma setupEncryption_ok:
  assumes "deriveKeyAndIV p password salt = Ok (key, v)"
  shows "setupEncryption p password salt = Ok \<lparr>dir = Encrypter, block = key, iv = v\<rparr>"
  using deriveKeyAndIV_lengths [OF assms]
  by (simp add: setupEncryption_def assms NewCipher_def NewCBC_def aes_BlockSize_def)

lemma block_sizedD: "block_sized f \<Longrightarrow> \<forall>b. length b = 16 \<longrightarrow> length (f k b) = 16"
  by (simp add: block_sized_def aes_BlockSize_def)

lemma EncryptStream_unbounded:
  assumes "8 \<le> length (remaining rnd)" "room w = None"
    and "deriveKeyAndIV p password (take 8 (remaining rnd)) = Ok (key, v)"
    and "block_sized (aes_Encrypt p)"
  shows "EncryptStream p rnd w r password =
           (Ok (), w\<lparr>written := written w @ magicHeader @ take 8 (remaining rnd) @
                      cbc_encrypt (aes_Encrypt p key) v (applyPKCS7Padding (remaining r))\<rparr>)"
proof -
  let ?w1 = "w\<lparr>written := written w @ magicHeader @ take 8 (remaining rnd)\<rparr>"
  let ?m = "\<lparr>dir = Encrypter, block = key, iv = v\<rparr>"
  have lv: "length (iv ?m) = 16" using deriveKeyAndIV_lengths [OF assms(3)] by simp
  have "EncryptStream p rnd w r password = EncryptStream_loop p ?w1 r ?m False"
    by (simp add: EncryptStream_def writeEncryptedHeader_unbounded [OF assms(1,2)]
        setupEncryption_ok [OF assms(3)])
  also have "\<dots> = (Ok (), ?w1\<lparr>written := written ?w1 @
                 cbc_encrypt (aes_Encrypt p key) (iv ?m) (applyPKCS7Padding (remaining r))\<rparr>)"
    using EncryptStream_loop_unbounded [OF block_sizedD [OF assms(4)], of ?m key ?w1 r False] lv assms(2)
    by simp
  finally show ?thesis by simp
qed

lemma DecryptStream_aligned:
  assumes "remaining r = magicHeader @ salt @ body" "length salt = 8"
    and "deriveKeyAndIV p password salt = Ok (key, v)"
    and "block_sized (aes_Decrypt p)" "room w = None" "16 dvd length body"
  shows "DecryptStream p w r password =
           (Ok (), w\<lparr>written := written w @ strip_final (cbc_decrypt (aes_Decrypt p key) v body)\<rparr>)"
proof -
  let ?m = "\<lparr>dir = Decrypter, block = key, iv = v\<rparr>"
  have lv: "length (iv ?m) = 16" using deriveKeyAndIV_lengths [OF assms(3)] by simp
  show ?thesis
    unfolding DecryptStream_valid_header [OF assms(1-3)]
    using DecryptStream_loop_aligned [OF block_sizedD [OF assms(4)], of ?m key w "r\<lparr>remaining := body\<rparr>" "[]"]
      lv assms(5,6) by simp
qed

lemma strip_final_applyPKCS7Padding: "strip_final (applyPKCS7Padding x) = x"
  by (simp add: strip_final_def pad_roundtrip)

section \<open>Rounding up to whole blocks\<close>

lemma ceiling_sixteenth: "nat \<lceil>(real n + 1) / 16\<rceil> = n div 16 + 1"
proof -
  define k where "k = n div 16"
  have a: "16 * k \<le> n" and b: "n < 16 * k + 16"
    by (simp_all add: k_def)
  have "\<lceil>(real n + 1) / 16\<rceil> = int (k + 1)"
  proof (rule ceiling_unique)
    have "real (16 * k) \<le> real n" using a by (simp only: of_nat_le_iff)
    then show "of_int (int (k + 1)) - 1 < (real n + 1) / 16" by simp
    have "n + 1 \<le> 16 * k + 16" using b by simp
    then have "real (n + 1) \<le> real (16 * k + 16)" by (simp only: of_nat_le_iff)
    then have "real n + 1 \<le> real (16 * k + 16)" by simp
    then show "(real n + 1) / 16 \<le> of_int (int (k + 1))" by simp
  qed
  then show ?thesis by (simp add: k_def)
qed

section \<open>The sample primitives keep the promises of the libraries\<close>

lemma sample_block_sized:
  "block_sized (aes_Encrypt sample_primitives)" "block_sized (aes_Decrypt sample_primitives)"
  by (simp_all add: block_sized_def sample_primitives_def)

lemma sample_cipher_inverts: "cipher_inverts sample_primitives"
  by (simp add: cipher_inverts_def sample_primitives_def comp_def)

lemma sample_deriveKeyAndIV:
  "deriveKeyAndIV sample_primitives password salt =
     Ok (replicate 32 (sum_list password + sum_list salt + 1),
         replicate 16 (sum_list password + sum_list salt + 1))"
  by (simp add: deriveKeyAndIV_def sample_primitives_def Let_def aes256KeySize_def
      aes_BlockSize_def ivOffset_def)

lemma sample_kdf_length_ok: "kdf_length_ok sample_primitives password salt"
  by (simp add: kdf_length_ok_def sample_primitives_def)

section \<open>Consequences for whole runs\<close>

lemma EncryptStream_written:
  assumes "8 \<le> length (remaining rnd)"
    and "deriveKeyAndIV p password (take 8 (remaining rnd)) = Ok (key, v)"
    and "block_sized (aes_Encrypt p)"
  shows "EncryptStream p rnd sink r password =
           (Ok (), \<lparr>written = magicHeader @ take 8 (remaining rnd) @
                      cbc_encrypt (aes_Encrypt p key) v (applyPKCS7Padding (remaining r)),
                    room = None\<rparr>)"
  using EncryptStream_unbounded [OF assms(1) _ assms(2,3), of sink r]
  by (simp add: sink_def)

lemma length_ciphertext:
  assumes "deriveKeyAndIV p password salt = Ok (key, v)" "block_sized (aes_Encrypt p)"
  shows "length (cbc_encrypt (aes_Encrypt p key) v (applyPKCS7Padding x)) = 16 * (length x div 16 + 1)"
  using length_cbc_encrypt [OF block_sizedD [OF assms(2)] _ applyPKCS7Padding_aligned, of v key x]
    deriveKeyAndIV_lengths [OF assms(1)]
  by (simp add: length_applyPKCS7Padding)

lemma strip_final_cases:
  "strip_final g = g \<or>
   1 \<le> unat (last g) \<and> unat (last g) \<le> 16 \<and>
   strip_final g = take (length g - unat (last g)) g"
proof (cases "g = []")
  case True
  then show ?thesis by (simp add: strip_final_Nil)
next
  case False
  have l: "g ! (length g - 1) = last g" using False by (simp add: last_conv_nth)
  show ?thesis
    unfolding strip_final_def removePKCS7Padding_def Let_def l
    using False last_index_in_range [OF False] by (auto simp: aes_BlockSize_def)
qed

lemma readAndValidateHeader_short:
  "length (remaining r) < 16 \<Longrightarrow>
   fst (readAndValidateHeader r) =
     Err (FailedToReadHeader (if at_end r = EOF \<and> remaining r \<noteq> [] then ErrUnexpectedEOF else at_end r))"
  by (simp add: readAndValidateHeader_def ReadFull_def headerSize_def)

lemma readAndValidateHeader_magic:
  "16 \<le> length (remaining r) \<Longrightarrow> take 8 (remaining r) \<noteq> magicHeader \<Longrightarrow>
   fst (readAndValidateHeader r) = Err InvalidFileFormat"
  by (simp add: readAndValidateHeader_def ReadFull_def headerSize_def saltSize_def)

lemma readAndValidateHeader_salt:
  "16 \<le> length (remaining r) \<Longrightarrow> take 8 (remaining r) = magicHeader \<Longrightarrow>
   readAndValidateHeader r =
     (Ok (take 8 (drop 8 (remaining r))), r\<lparr>remaining := drop 16 (remaining r)\<rparr>)"
  by (simp add: readAndValidateHeader_def ReadFull_def headerSize_def saltSize_def drop_take)

lemma DecryptStream_header_error:
  "fst (readAndValidateHeader r) = Err e \<Longrightarrow> DecryptStream p w r password = (Err e, w)"
  by (cases "readAndValidateHeader r") (simp add: DecryptStream_def)

section \<open>Which errors the two streams can return\<close>

text \<open>
  \<open>io.ReadFull\<close> returns an error only together with a short count, and a short count makes
  the chunk the last one. Encryption and decryption therefore return before they reach their
  test of the read error, whatever the reader does.
\<close>

lemma writeEncryptedBlock_error:
  "fst (writeEncryptedBlock p w m x) = Err e' \<Longrightarrow> \<exists>c. e' = ErrorWritingEncryptedBlock c"
  by (auto simp: writeEncryptedBlock_def CryptBlocks_def Let_def
      split: if_splits direction.splits prod.splits option.splits)

lemma EncryptStream_loop_error:
  "fst (EncryptStream_loop p w r m h) = Err e' \<Longrightarrow> \<exists>c. e' = ErrorWritingEncryptedBlock c"
proof (induction "length (remaining r)" arbitrary: r w m h rule: less_induct)
  case less
  show ?case
  proof (cases "length (remaining r) < bufferSize")
    case True
    obtain res w1 where wb: "writeEncryptedBlock p w m (applyPKCS7Padding (remaining r)) = (res, w1)"
      by (cases "writeEncryptedBlock p w m (applyPKCS7Padding (remaining r))")
    have "res = Err e'"
      using less.prems
      by (cases res) (simp_all add: EncryptStream_loop_last [OF True] processFinalBlock_pads [OF True] wb)
    then show ?thesis
      using writeEncryptedBlock_error [of p w m "applyPKCS7Padding (remaining r)" e'] wb by simp
  next
    case False
    then have full: "bufferSize \<le> length (remaining r)" by simp
    obtain res w1 where wb: "writeEncryptedBlock p w m (take bufferSize (remaining r)) = (res, w1)"
      by (cases "writeEncryptedBlock p w m (take bufferSize (remaining r))")
    show ?thesis
    proof (cases res)
      case (Ok m')
      let ?r' = "r\<lparr>remaining := drop bufferSize (remaining r)\<rparr>"
      have "fst (EncryptStream_loop p w1 ?r' m' True) = Err e'"
        using less.prems by (simp add: EncryptStream_loop_full [OF full] wb Ok)
      moreover have "length (remaining ?r') < length (remaining r)"
        using full bufferSize_pos by simp
      ultimately show ?thesis by (rule less.hyps [rotated])
    next
      case (Err x)
      then have "x = e'"
        using less.prems by (simp add: EncryptStream_loop_full [OF full] wb)
      then show ?thesis
        using writeEncryptedBlock_error [of p w m "take bufferSize (remaining r)" e'] wb Err by simp
    next
      case (Panic x)
      then show ?thesis
        using less.prems by (simp add: EncryptStream_loop_full [OF full] wb)
    qed
  qed
qed

lemma EncryptStream_never_reports_read_failure:
  "fst (EncryptStream p rnd w r password) \<noteq> Err (FailedToReadInputData c)"
proof
  assume a: "fst (EncryptStream p rnd w r password) = Err (FailedToReadInputData c)"
  show False
  proof (cases "writeEncryptedHeader rnd w")
    case (Pair res w1)
    show ?thesis
    proof (cases res)
      case (Ok salt)
      show ?thesis
      proof (cases "setupEncryption p password salt")
        case (Ok cbc)
        with a Pair \<open>res = Ok salt\<close>
        have "fst (EncryptStream_loop p w1 r cbc False) = Err (FailedToReadInputData c)"
          by (simp add: EncryptStream_def)
        from EncryptStream_loop_error [OF this] show ?thesis by simp
      next
        case (Err x)
        with a Pair \<open>res = Ok salt\<close> show ?thesis
          by (auto simp: EncryptStream_def setupEncryption_def NewCBC_def deriveKeyAndIV_def Let_def
              split: outcome.splits sum.splits if_splits prod.splits)
      next
        case (Panic x)
        with a Pair \<open>res = Ok salt\<close> show ?thesis by (simp add: EncryptStream_def)
      qed
    next
      case (Err x)
      with a Pair show ?thesis
        by (auto simp: EncryptStream_def writeEncryptedHeader_def
            split: prod.splits option.splits)
    next
      case (Panic x)
      with a Pair show ?thesis by (simp add: EncryptStream_def)
    qed
  qed
qed


lemma processDecryptionBlock_error:
  "fst (processDecryptionBlock p w m buf n isLast prev) = Err e' \<Longrightarrow>
   (\<exists>c. e' = FailedToWriteDecryptedBlock c) \<or> (\<exists>c. e' = FailedToWriteFinalBlock c)"
  by (auto simp: processDecryptionBlock_def CryptBlocks_def removePKCS7Padding_def Let_def
      split: if_splits direction.splits prod.splits option.splits outcome.splits)

lemma handleEndOfFile_error:
  "fst (handleEndOfFile w prev) = Err e' \<Longrightarrow> \<exists>c. e' = FailedToWriteFinalBlock c"
  by (auto simp: handleEndOfFile_def removePKCS7Padding_def Let_def
      split: if_splits prod.splits option.splits outcome.splits)

lemma DecryptStream_loop_error:
  "fst (DecryptStream_loop p w r m prev) = Err e' \<Longrightarrow>
   (\<exists>c. e' = FailedToWriteDecryptedBlock c) \<or> (\<exists>c. e' = FailedToWriteFinalBlock c)"
proof (induction "length (remaining r)" arbitrary: r w m prev rule: less_induct)
  case less
  consider (eof) "remaining r = []"
    | (short) "remaining r \<noteq> []" "length (remaining r) < bufferSize"
    | (full) "bufferSize \<le> length (remaining r)"
    by fastforce
  then show ?case
  proof cases
    case eof
    then show ?thesis
      using less.prems handleEndOfFile_error [of w prev e'] by (simp add: DecryptStream_loop_eof)
  next
    case short
    obtain res w1 where pb:
      "processDecryptionBlock p w m (remaining r) (length (remaining r)) True prev = (res, w1)"
      by (cases "processDecryptionBlock p w m (remaining r) (length (remaining r)) True prev")
    have "res = Err e'"
      using less.prems by (cases res) (simp_all add: DecryptStream_loop_short [OF short] pb)
    then show ?thesis
      using processDecryptionBlock_error [of p w m "remaining r" "length (remaining r)" True prev e'] pb
      by simp
  next
    case full
    obtain res w1 where pb:
      "processDecryptionBlock p w m (take bufferSize (remaining r)) bufferSize False prev = (res, w1)"
      by (cases "processDecryptionBlock p w m (take bufferSize (remaining r)) bufferSize False prev")
    show ?thesis
    proof (cases res)
      case (Ok z)
      obtain nextPrev m' where z: "z = (nextPrev, m')" by (cases z)
      let ?r' = "r\<lparr>remaining := drop bufferSize (remaining r)\<rparr>"
      have "fst (DecryptStream_loop p w1 ?r' m' nextPrev) = Err e'"
        using less.prems by (simp add: DecryptStream_loop_full [OF full] pb Ok z)
      moreover have "length (remaining ?r') < length (remaining r)"
        using full bufferSize_pos by simp
      ultimately show ?thesis by (rule less.hyps [rotated])
    next
      case (Err x)
      then have "x = e'"
        using less.prems by (simp add: DecryptStream_loop_full [OF full] pb)
      then show ?thesis
        using processDecryptionBlock_error [of p w m "take bufferSize (remaining r)" bufferSize False prev e']
          pb Err by simp
    next
      case (Panic x)
      then show ?thesis
        using less.prems by (simp add: DecryptStream_loop_full [OF full] pb)
    qed
  qed
qed

lemma DecryptStream_never_reports_read_failure:
  "fst (DecryptStream p w r password) \<noteq> Err (FailedToReadEncryptedData c)"
proof
  assume a: "fst (DecryptStream p w r password) = Err (FailedToReadEncryptedData c)"
  have "\<exists>w1 r1 m. fst (DecryptStream_loop p w1 r1 m []) = Err (FailedToReadEncryptedData c)"
    using a
    by (auto simp: DecryptStream_def readAndValidateHeader_def deriveKeyAndIV_def NewCBC_def Let_def
        split: prod.splits outcome.splits option.splits sum.splits if_splits)
  then obtain w1 r1 m where "fst (DecryptStream_loop p w1 r1 m []) = Err (FailedToReadEncryptedData c)"
    by blast
  from DecryptStream_loop_error [OF this] show False by simp
qed

lemma processDecryptionBlock_keeps_direction:
  "processDecryptionBlock p w m buf n isLast prev = (Ok (nextPrev, m'), w1) \<Longrightarrow> dir m' = dir m"
  by (auto simp: processDecryptionBlock_def CryptBlocks_def removePKCS7Padding_def Let_def
      split: if_splits direction.splits prod.splits option.splits outcome.splits)

lemma DecryptStream_loop_unaligned_any_sink:
  "dir m = Decrypter \<Longrightarrow> \<not> 16 dvd length (remaining r) \<Longrightarrow>
     fst (DecryptStream_loop p w r m prev) \<noteq> Ok ()"
proof (induction "length (remaining r)" arbitrary: r w m prev rule: less_induct)
  case less
  have ne: "remaining r \<noteq> []" using less.prems by auto
  show ?case
  proof (cases "length (remaining r) < bufferSize")
    case True
    then show ?thesis
      using ne less.prems
      by (simp add: DecryptStream_loop_short processDecryptionBlock_unaligned)
  next
    case False
    then have full: "bufferSize \<le> length (remaining r)" by simp
    let ?r' = "r\<lparr>remaining := drop bufferSize (remaining r)\<rparr>"
    have arest: "\<not> 16 dvd length (remaining ?r')"
    proof
      assume "16 dvd length (remaining ?r')"
      then have "16 dvd length (drop bufferSize (remaining r)) + bufferSize"
        using bufferSize_aligned by simp
      then show False using less.prems(2) full by simp
    qed
    have shorter: "length (remaining ?r') < length (remaining r)"
      using full bufferSize_pos by simp
    obtain res w1 where pb:
      "processDecryptionBlock p w m (take bufferSize (remaining r)) bufferSize False prev = (res, w1)"
      by (cases "processDecryptionBlock p w m (take bufferSize (remaining r)) bufferSize False prev")
    show ?thesis
    proof (cases res)
      case (Ok z)
      obtain nextPrev m' where z: "z = (nextPrev, m')" by (cases z)
      have "dir m' = Decrypter"
        using processDecryptionBlock_keeps_direction [of p w m _ _ False prev nextPrev m' w1]
          pb Ok z less.prems(1) by simp
      then have "fst (DecryptStream_loop p w1 ?r' m' nextPrev) \<noteq> Ok ()"
        using less.hyps [OF shorter _ arest] by simp
      then show ?thesis
        by (simp add: DecryptStream_loop_full [OF full] pb Ok z)
    next
      case (Err x)
      then show ?thesis by (simp add: DecryptStream_loop_full [OF full] pb)
    next
      case (Panic x)
      then show ?thesis by (simp add: DecryptStream_loop_full [OF full] pb)
    qed
  qed
qed

section \<open>Whole blocks never make the decoder panic\<close>

lemma removePKCS7Padding_never_fails:
  "removePKCS7Padding x (length x) \<noteq> Panic q" "removePKCS7Padding x (length x) \<noteq> Err e"
  by (simp_all add: removePKCS7Padding_whole)

lemma processDecryptionBlock_no_panic:
  assumes "16 dvd length buf" "dir m = Decrypter"
    and "length (cbc_decrypt (aes_Decrypt p (block m)) (iv m) buf) = length buf"
  shows "fst (processDecryptionBlock p w m buf (length buf) isLast prev) \<noteq> Panic q"
proof -
  let ?dec = "cbc_decrypt (aes_Decrypt p (block m)) (iv m) buf"
  have rm: "removePKCS7Padding ?dec (length buf) = Ok (strip_final ?dec)"
    using removePKCS7Padding_whole [of ?dec] assms(3) by simp
  show ?thesis
    using assms(1,2)
    by (simp add: processDecryptionBlock_def CryptBlocks_decrypt rm
        split: prod.splits option.splits)
qed

lemma processDecryptionBlock_next:
  assumes "16 dvd length buf" "dir m = Decrypter"
    and "processDecryptionBlock p w m buf (length buf) False prev = (Ok (nextPrev, m'), w1)"
  shows "nextPrev = cbc_decrypt (aes_Decrypt p (block m)) (iv m) buf \<and>
         m' = m\<lparr>iv := next_iv (iv m) buf\<rparr>"
  using assms
  by (auto simp: processDecryptionBlock_def CryptBlocks_decrypt
      split: prod.splits option.splits if_splits)

lemma handleEndOfFile_no_panic: "fst (handleEndOfFile w prev) \<noteq> Panic q"
  by (simp add: handleEndOfFile_def removePKCS7Padding_whole split: prod.splits option.splits)

lemma DecryptStream_loop_no_panic:
  assumes D: "\<forall>b. length b = 16 \<longrightarrow> length (aes_Decrypt p k b) = 16"
  shows "dir m = Decrypter \<Longrightarrow> block m = k \<Longrightarrow> length (iv m) = 16 \<Longrightarrow>
         16 dvd length (remaining r) \<Longrightarrow>
         fst (DecryptStream_loop p w r m prev) \<noteq> Panic q"
proof (induction "length (remaining r)" arbitrary: r w m prev rule: less_induct)
  case less
  let ?C = "remaining r"
  consider (eof) "?C = []" | (short) "?C \<noteq> []" "length ?C < bufferSize" | (full) "bufferSize \<le> length ?C"
    by fastforce
  then show ?case
  proof cases
    case eof
    then show ?thesis by (simp add: DecryptStream_loop_eof handleEndOfFile_no_panic)
  next
    case short
    have len: "length (cbc_decrypt (aes_Decrypt p (block m)) (iv m) ?C) = length ?C"
      using length_cbc_decrypt [OF D less.prems(3,4)] less.prems(2) by simp
    obtain res w1 where pb:
      "processDecryptionBlock p w m ?C (length ?C) True prev = (res, w1)"
      by (cases "processDecryptionBlock p w m ?C (length ?C) True prev")
    have "res \<noteq> Panic q"
      using processDecryptionBlock_no_panic [OF less.prems(4,1) len, of w True prev q] pb by simp
    then show ?thesis
      by (cases res) (simp_all add: DecryptStream_loop_short [OF short] pb)
  next
    case full
    let ?c1 = "take bufferSize ?C"
    let ?r' = "r\<lparr>remaining := drop bufferSize ?C\<rparr>"
    have l1: "length ?c1 = bufferSize" using full by simp
    have a1: "16 dvd length ?c1" using l1 bufferSize_aligned by simp
    have arest: "16 dvd length (remaining ?r')"
      using less.prems(4) full bufferSize_aligned by simp
    have shorter: "length (remaining ?r') < length ?C"
      using full bufferSize_pos by simp
    have len: "length (cbc_decrypt (aes_Decrypt p (block m)) (iv m) ?c1) = length ?c1"
      using length_cbc_decrypt [OF D less.prems(3) a1] less.prems(2) by simp
    obtain res w1 where pb:
      "processDecryptionBlock p w m ?c1 (length ?c1) False prev = (res, w1)"
      by (cases "processDecryptionBlock p w m ?c1 (length ?c1) False prev")
    show ?thesis
    proof (cases res)
      case (Ok z)
      obtain nextPrev m' where z: "z = (nextPrev, m')" by (cases z)
      have m': "m' = m\<lparr>iv := next_iv (iv m) ?c1\<rparr>"
        using processDecryptionBlock_next [OF a1 less.prems(1), of p w prev nextPrev m' w1] pb Ok z
        by simp
      have "length (iv m') = 16"
        using next_iv_aligned [OF a1 less.prems(3)] by (simp add: m')
      then have "fst (DecryptStream_loop p w1 ?r' m' nextPrev) \<noteq> Panic q"
        using less.hyps [OF shorter _ _ _ arest, of m' w1 nextPrev] less.prems(1,2) by (simp add: m')
      then show ?thesis
        using pb Ok z l1 by (simp add: DecryptStream_loop_full [OF full])
    next
      case (Err x)
      then show ?thesis using pb l1 by (simp add: DecryptStream_loop_full [OF full])
    next
      case (Panic x)
      then have "x \<noteq> q"
        using processDecryptionBlock_no_panic [OF a1 less.prems(1) len, of w False prev x] pb by simp
      then show ?thesis using pb l1 Panic by (simp add: DecryptStream_loop_full [OF full])
    qed
  qed
qed

lemma DecryptStream_no_panic:
  assumes "remaining r = magicHeader @ salt @ body" "length salt = 8"
    and "deriveKeyAndIV p password salt = Ok (key, v)"
    and "block_sized (aes_Decrypt p)" "16 dvd length body"
  shows "fst (DecryptStream p w r password) \<noteq> Panic q"
proof -
  let ?m = "\<lparr>dir = Decrypter, block = key, iv = v\<rparr>"
  have lv: "length (iv ?m) = 16" using deriveKeyAndIV_lengths [OF assms(3)] by simp
  show ?thesis
    unfolding DecryptStream_valid_header [OF assms(1-3)]
    using DecryptStream_loop_no_panic [OF block_sizedD [OF assms(4)], of ?m key "r\<lparr>remaining := body\<rparr>" w "[]" q]
      lv assms(5) by simp
qed

lemma DecryptStream_error:
  assumes "remaining r = magicHeader @ salt @ body" "length salt = 8"
    and "deriveKeyAndIV p password salt = Ok (key, v)"
    and "fst (DecryptStream p w r password) = Err e"
  shows "(\<exists>c. e = FailedToWriteDecryptedBlock c) \<or> (\<exists>c. e = FailedToWriteFinalBlock c)"
  using assms(4) unfolding DecryptStream_valid_header [OF assms(1-3)]
  by (rule DecryptStream_loop_error)

lemma DecryptStream_unaligned_any_sink:
  assumes "remaining r = magicHeader @ salt @ body" "length salt = 8"
    and "deriveKeyAndIV p password salt = Ok (key, v)"
    and "\<not> 16 dvd length body"
  shows "fst (DecryptStream p w r password) \<noteq> Ok ()"
  unfolding DecryptStream_valid_header [OF assms(1-3)]
  using assms(4) by (intro DecryptStream_loop_unaligned_any_sink) simp_all

section \<open>Properties of the codec\<close>

text \<open>
  C1 (round trip). For every plaintext \<open>P\<close> of any length and every password, decrypting
  what \<open>EncryptStream\<close> wrote, with the same password, succeeds and writes exactly \<open>P\<close>.
  The source and the sinks are in-memory ones; the random source delivers the eight bytes of
  salt; the key derivation delivers its 48 bytes; the block cipher maps blocks to blocks and
  its decryption undoes its encryption.
\<close>

theorem roundtrip:
  assumes "8 \<le> length (remaining rnd)"
    and "deriveKeyAndIV p password (take 8 (remaining rnd)) = Ok (key, v)"
    and "block_sized (aes_Encrypt p)" "block_sized (aes_Decrypt p)" "cipher_inverts p"
  shows "fst (EncryptStream p rnd sink (source P) password) = Ok () \<and>
         DecryptStream p sink (source (written (snd (EncryptStream p rnd sink (source P) password)))) password
           = (Ok (), \<lparr>written = P, room = None\<rparr>)"
proof -
  let ?salt = "take 8 (remaining rnd)"
  let ?E = "aes_Encrypt p key"
  let ?D = "aes_Decrypt p key"
  let ?ct = "cbc_encrypt ?E v (applyPKCS7Padding P)"
  have E: "\<forall>b. length b = 16 \<longrightarrow> length (?E b) = 16" by (rule block_sizedD [OF assms(3)])
  have DE: "\<forall>b. length b = 16 \<longrightarrow> ?D (?E b) = b"
    using assms(5) by (simp add: cipher_inverts_def aes_BlockSize_def)
  have lv: "length v = 16" using deriveKeyAndIV_lengths [OF assms(2)] by simp
  have enc: "EncryptStream p rnd sink (source P) password =
               (Ok (), sink\<lparr>written := written sink @ magicHeader @ ?salt @ ?ct\<rparr>)"
    using EncryptStream_unbounded [OF assms(1) _ assms(2,3), of sink "source P"]
    by (simp add: sink_def source_def)
  have lct: "16 dvd length ?ct"
    using length_cbc_encrypt [OF E lv applyPKCS7Padding_aligned [of P]] applyPKCS7Padding_aligned [of P]
    by simp
  have undo: "cbc_decrypt ?D v ?ct = applyPKCS7Padding P"
    by (rule cbc_decrypt_encrypt [OF E DE lv applyPKCS7Padding_aligned])
  have dec: "DecryptStream p sink (source (magicHeader @ ?salt @ ?ct)) password =
               (Ok (), sink\<lparr>written := written sink @ strip_final (cbc_decrypt ?D v ?ct)\<rparr>)"
    using assms(1)
    by (intro DecryptStream_aligned [OF _ _ assms(2,4) _ lct]) (simp_all add: source_def sink_def)
  show ?thesis
    unfolding enc using dec
    by (simp add: undo strip_final_applyPKCS7Padding sink_def)
qed

text \<open>The round trip on a three-byte plaintext, run with the sample primitives.\<close>

theorem roundtrip_witness:
  "fst (EncryptStream sample_primitives (source [1, 2, 3, 4, 5, 6, 7, 8]) sink
          (source [0x68, 0x69, 0x21]) [0x70, 0x77]) = Ok () \<and>
   DecryptStream sample_primitives sink
      (source (written (snd (EncryptStream sample_primitives (source [1, 2, 3, 4, 5, 6, 7, 8]) sink
          (source [0x68, 0x69, 0x21]) [0x70, 0x77])))) [0x70, 0x77]
     = (Ok (), \<lparr>written = [0x68, 0x69, 0x21], room = None\<rparr>)"
proof -
  have a: "8 \<le> length (remaining (source [1, 2, 3, 4, 5, 6, 7, 8]))"
    by (simp add: source_def)
  show ?thesis
    by (rule roundtrip [OF a sample_deriveKeyAndIV sample_block_sized sample_cipher_inverts])
qed

text \<open>
  C9 (padding then stripping is the identity). For every byte sequence \<open>D\<close>, stripping
  \<open>applyPKCS7Padding D\<close>, with its whole length as the byte count, returns exactly \<open>D\<close>:
  the pad value, which is the last byte, lies between 1 and 16 and never exceeds the padded
  length.
\<close>

theorem pad_then_strip:
  "removePKCS7Padding (applyPKCS7Padding D) (length (applyPKCS7Padding D)) = Ok D \<and>
   1 \<le> unat (last (applyPKCS7Padding D)) \<and>
   unat (last (applyPKCS7Padding D)) \<le> 16 \<and>
   unat (last (applyPKCS7Padding D)) \<le> length (applyPKCS7Padding D)"
proof -
  define k where "k = 16 - length D mod 16"
  have k: "1 \<le> k" "k \<le> 16" by (simp_all add: k_def)
  have ap: "applyPKCS7Padding D = D @ replicate k (of_nat k)"
    by (simp add: applyPKCS7Padding_def Let_def aes_BlockSize_def k_def)
  have "replicate k (of_nat k :: byte) \<noteq> []" using k by auto
  then have "last (applyPKCS7Padding D) = of_nat k"
    using k by (simp add: ap)
  then have "unat (last (applyPKCS7Padding D)) = k"
    using k by (simp add: unat_pad_byte)
  then show ?thesis
    using k by (simp add: pad_roundtrip) (simp add: ap)
qed

text \<open>
  C3 (strip rule). On a whole chunk the decoder reads the last byte as the padding length;
  it drops that many bytes when the value lies between 1 and 16 and does not exceed the chunk
  length, and returns the chunk as it is for every other value (0 included) and for the empty
  chunk. It never fails.
\<close>

theorem strip_rule:
  "removePKCS7Padding chunk (length chunk) =
     Ok (if chunk = [] then chunk
         else if 1 \<le> unat (last chunk) \<and> unat (last chunk) \<le> 16 \<and> unat (last chunk) \<le> length chunk
              then take (length chunk - unat (last chunk)) chunk
              else chunk)"
proof (cases "chunk = []")
  case True
  then show ?thesis by (simp add: removePKCS7Padding_def)
next
  case False
  have l: "chunk ! (length chunk - 1) = last chunk" using False by (simp add: last_conv_nth)
  show ?thesis
    unfolding removePKCS7Padding_def Let_def l
    using False last_index_in_range [OF False] by (auto simp: aes_BlockSize_def)
qed

text \<open>
  C5 (key derivation). \<open>deriveKeyAndIV\<close> calls PBKDF2 once, with HMAC-SHA-256, 10000
  iterations and 48 bytes of output; the key is bytes 0 to 31 of the result and the IV bytes 32
  to 47. Equal passwords and salts give equal keys and IVs.
\<close>

theorem key_derivation:
  assumes "kdf_length_ok p password salt"
  shows "(let keyIv = pbkdf2_Key p password salt 10000 48 sha256_New
          in deriveKeyAndIV p password salt = Ok (take 32 keyIv, drop 32 keyIv) \<and>
             length (take 32 keyIv) = 32 \<and> length (drop 32 keyIv) = 16) \<and>
         (\<forall>password' salt'. password' = password \<and> salt' = salt \<longrightarrow>
            deriveKeyAndIV p password' salt' = deriveKeyAndIV p password salt)"
  using assms
  by (simp add: kdf_length_ok_def deriveKeyAndIV_def Let_def pbkdf2Iterations_def
      aes256KeySize_def aes_BlockSize_def ivOffset_def)

text \<open>The derivation run with the sample primitives.\<close>

theorem key_derivation_witness:
  "deriveKeyAndIV sample_primitives [0x70, 0x77] [1, 2, 3, 4, 5, 6, 7, 8] =
     Ok (replicate 32 0x0C, replicate 16 0x0C)"
  using key_derivation [OF sample_kdf_length_ok, of "[0x70, 0x77]" "[1, 2, 3, 4, 5, 6, 7, 8]"]
  by (simp add: sample_primitives_def Let_def)

text \<open>
  C7 (header only). When the input is a valid 16-byte header and nothing else, \<open>DecryptStream\<close>
  returns success and leaves the sink as it was, whatever the sink: nothing is written, since
  no chunk is pending at the read that returns no byte.
\<close>

theorem header_only:
  assumes "remaining r = magicHeader @ salt" "length salt = 8"
    and "deriveKeyAndIV p password salt = Ok (key, v)"
  shows "DecryptStream p w r password = (Ok (), w)"
proof -
  have "remaining r = magicHeader @ salt @ []" using assms(1) by simp
  from DecryptStream_valid_header [OF this assms(2,3)]
  show ?thesis
    by (simp add: DecryptStream_loop_eof handleEndOfFile_def)
qed

text \<open>A header alone, into a sink that has no room at all.\<close>

theorem header_only_witness:
  "DecryptStream sample_primitives \<lparr>written = [], room = Some 0\<rparr>
     (source (magicHeader @ [1, 2, 3, 4, 5, 6, 7, 8])) [0x70, 0x77]
   = (Ok (), \<lparr>written = [], room = Some 0\<rparr>)"
proof -
  have a: "remaining (source (magicHeader @ [1, 2, 3, 4, 5, 6, 7, 8])) = magicHeader @ [1, 2, 3, 4, 5, 6, 7, 8]"
    by (simp add: source_def)
  have b: "length [1, 2, 3, 4, 5, 6, 7, 8 :: byte] = 8" by simp
  show ?thesis by (rule header_only [OF a b sample_deriveKeyAndIV])
qed

text \<open>
  C10 (truncated body). When a valid header is followed by a body that is not empty and whose
  length is not a multiple of 16, \<open>DecryptStream\<close> does not report the input through its
  error result: \<open>CryptBlocks\<close> panics on the chunk that is not block-aligned. This is the
  outcome whenever the sink takes every write. With any sink the call never succeeds, and the
  only error it can return is the failure of a write of earlier plaintext, never a format
  error or a read error.
\<close>

theorem truncated_body_panics:
  assumes "remaining r = magicHeader @ salt @ body" "length salt = 8"
    and "deriveKeyAndIV p password salt = Ok (key, v)"
    and "body \<noteq> []" "\<not> 16 dvd length body"
  shows "(room w = None \<longrightarrow> fst (DecryptStream p w r password) = Panic InputNotFullBlocks) \<and>
         fst (DecryptStream p w r password) \<noteq> Ok () \<and>
         (\<forall>e. fst (DecryptStream p w r password) = Err e \<longrightarrow>
              (\<exists>c. e = FailedToWriteDecryptedBlock c) \<or> (\<exists>c. e = FailedToWriteFinalBlock c))"
proof (intro conjI impI allI)
  assume "room w = None"
  then show "fst (DecryptStream p w r password) = Panic InputNotFullBlocks"
    unfolding DecryptStream_valid_header [OF assms(1-3)]
    using assms(5) by (intro DecryptStream_loop_unaligned) simp_all
next
  show "fst (DecryptStream p w r password) \<noteq> Ok ()"
    by (rule DecryptStream_unaligned_any_sink [OF assms(1-3,5)])
next
  fix e
  assume "fst (DecryptStream p w r password) = Err e"
  then show "(\<exists>c. e = FailedToWriteDecryptedBlock c) \<or> (\<exists>c. e = FailedToWriteFinalBlock c)"
    by (rule DecryptStream_error [OF assms(1-3)])
qed

text \<open>The panic on a body of three bytes.\<close>

theorem truncated_body_panics_witness:
  "fst (DecryptStream sample_primitives sink
          (source (magicHeader @ [1, 2, 3, 4, 5, 6, 7, 8] @ [0xAA, 0xBB, 0xCC])) [0x70, 0x77])
     = Panic InputNotFullBlocks"
proof -
  have a: "remaining (source (magicHeader @ [1, 2, 3, 4, 5, 6, 7, 8] @ [0xAA, 0xBB, 0xCC])) =
             magicHeader @ [1, 2, 3, 4, 5, 6, 7, 8] @ [0xAA, 0xBB, 0xCC]"
    by (simp add: source_def)
  have b: "length [1, 2, 3, 4, 5, 6, 7, 8 :: byte] = 8" by simp
  have c: "[0xAA, 0xBB, 0xCC :: byte] \<noteq> []" by simp
  have "length [0xAA, 0xBB, 0xCC :: byte] = 3" by simp
  then have d: "\<not> 16 dvd length [0xAA, 0xBB, 0xCC :: byte]" by (simp only:) simp
  have e: "room sink = None" by (simp add: sink_def)
  show ?thesis
    using truncated_body_panics [OF a b sample_deriveKeyAndIV c d, of sink] e by simp
qed

text \<open>
  C2 (padding invariant). For every plaintext \<open>P\<close>, what \<open>EncryptStream\<close> writes after
  the 16-byte header has length \<open>16 * ceil((len P + 1) / 16)\<close>: a positive multiple of 16,
  greater than \<open>len P\<close> rounded down to a block boundary, also when \<open>P\<close> is empty.
\<close>

theorem ciphertext_length:
  assumes "8 \<le> length (remaining rnd)"
    and "deriveKeyAndIV p password (take 8 (remaining rnd)) = Ok (key, v)"
    and "block_sized (aes_Encrypt p)"
  shows "fst (EncryptStream p rnd sink (source P) password) = Ok () \<and>
         (let out = written (snd (EncryptStream p rnd sink (source P) password))
          in take 16 out = magicHeader @ take 8 (remaining rnd) \<and>
             length (drop 16 out) = 16 * nat \<lceil>(real (length P) + 1) / 16\<rceil> \<and>
             0 < length (drop 16 out) \<and>
             16 dvd length (drop 16 out) \<and>
             16 * (length P div 16) < length (drop 16 out))"
proof -
  let ?ct = "cbc_encrypt (aes_Encrypt p key) v (applyPKCS7Padding P)"
  have len: "length ?ct = 16 * (length P div 16 + 1)"
    using length_ciphertext [OF assms(2,3)] .
  show ?thesis
    unfolding EncryptStream_written [OF assms]
    using assms(1) len
    by (simp add: source_def Let_def length_magicHeader ceiling_sixteenth)
qed

text \<open>The empty plaintext: one block of ciphertext.\<close>

theorem ciphertext_length_witness:
  "length (drop 16 (written (snd (EncryptStream sample_primitives (source [1, 2, 3, 4, 5, 6, 7, 8]) sink
          (source []) [0x70, 0x77])))) = 16"
proof -
  have a: "8 \<le> length (remaining (source [1, 2, 3, 4, 5, 6, 7, 8]))"
    by (simp add: source_def)
  show ?thesis
    using ciphertext_length [where password = "[0x70, 0x77]" and P = "[]",
        OF a sample_deriveKeyAndIV sample_block_sized(1)]
      ceiling_sixteenth [of 0]
    by (simp add: Let_def)
qed

text \<open>
  C4 (header rejection). \<open>DecryptStream\<close> returns an error of kind \<open>FormatError\<close> and
  writes nothing when the input ends before 16 bytes, and when its first 8 bytes are not the
  magic tag; with a valid header it goes on with bytes 8 to 15 as the salt.
\<close>

theorem header_rejection:
  "(length (remaining r) < 16 \<and> at_end r = EOF \<longrightarrow>
      DecryptStream p w r password =
        (Err (FailedToReadHeader (if remaining r = [] then EOF else ErrUnexpectedEOF)), w) \<and>
      kind_of (FailedToReadHeader (if remaining r = [] then EOF else ErrUnexpectedEOF)) = FormatError) \<and>
   (16 \<le> length (remaining r) \<and> take 8 (remaining r) \<noteq> magicHeader \<longrightarrow>
      DecryptStream p w r password = (Err InvalidFileFormat, w) \<and>
      kind_of InvalidFileFormat = FormatError) \<and>
   (16 \<le> length (remaining r) \<and> take 8 (remaining r) = magicHeader \<longrightarrow>
      readAndValidateHeader r =
        (Ok (take 8 (drop 8 (remaining r))), r\<lparr>remaining := drop 16 (remaining r)\<rparr>) \<and>
      (\<forall>key v. deriveKeyAndIV p password (take 8 (drop 8 (remaining r))) = Ok (key, v) \<longrightarrow>
         DecryptStream p w r password =
           DecryptStream_loop p w (r\<lparr>remaining := drop 16 (remaining r)\<rparr>)
             \<lparr>dir = Decrypter, block = key, iv = v\<rparr> []))"
proof (intro conjI impI allI)
  assume a: "length (remaining r) < 16 \<and> at_end r = EOF"
  then have "fst (readAndValidateHeader r) =
      Err (FailedToReadHeader (if remaining r = [] then EOF else ErrUnexpectedEOF))"
    by (simp add: readAndValidateHeader_short)
  then show "DecryptStream p w r password =
      (Err (FailedToReadHeader (if remaining r = [] then EOF else ErrUnexpectedEOF)), w)"
    by (rule DecryptStream_header_error)
  show "kind_of (FailedToReadHeader (if remaining r = [] then EOF else ErrUnexpectedEOF)) = FormatError"
    by simp
next
  assume "16 \<le> length (remaining r) \<and> take 8 (remaining r) \<noteq> magicHeader"
  then have "fst (readAndValidateHeader r) = Err InvalidFileFormat"
    by (simp add: readAndValidateHeader_magic)
  then show "DecryptStream p w r password = (Err InvalidFileFormat, w)"
    by (rule DecryptStream_header_error)
  show "kind_of InvalidFileFormat = FormatError" by simp
next
  assume a: "16 \<le> length (remaining r) \<and> take 8 (remaining r) = magicHeader"
  then show h: "readAndValidateHeader r =
      (Ok (take 8 (drop 8 (remaining r))), r\<lparr>remaining := drop 16 (remaining r)\<rparr>)"
    by (simp add: readAndValidateHeader_salt)
  fix key v
  assume d: "deriveKeyAndIV p password (take 8 (drop 8 (remaining r))) = Ok (key, v)"
  show "DecryptStream p w r password =
          DecryptStream_loop p w (r\<lparr>remaining := drop 16 (remaining r)\<rparr>)
            \<lparr>dir = Decrypter, block = key, iv = v\<rparr> []"
    using deriveKeyAndIV_lengths [OF d]
    by (simp add: DecryptStream_def h d NewCipher_def NewCBC_def aes_BlockSize_def)
qed

text \<open>An empty input, a truncated header, a wrong tag, a valid header.\<close>

theorem header_rejection_witness:
  "DecryptStream sample_primitives sink (source []) [0x70, 0x77]
     = (Err (FailedToReadHeader EOF), sink) \<and>
   DecryptStream sample_primitives sink (source [0x53, 0x61, 0x6C]) [0x70, 0x77]
     = (Err (FailedToReadHeader ErrUnexpectedEOF), sink) \<and>
   DecryptStream sample_primitives sink
       (source [0x53, 0x61, 0x6C, 0x74, 0x65, 0x64, 0x5F, 0x21, 1, 2, 3, 4, 5, 6, 7, 8]) [0x70, 0x77]
     = (Err InvalidFileFormat, sink) \<and>
   fst (readAndValidateHeader
       (source [0x53, 0x61, 0x6C, 0x74, 0x65, 0x64, 0x5F, 0x5F, 1, 2, 3, 4, 5, 6, 7, 8, 9]))
     = Ok [1, 2, 3, 4, 5, 6, 7, 8]"
  using header_rejection [of "source []" sample_primitives sink "[0x70, 0x77]"]
    header_rejection [of "source [0x53, 0x61, 0x6C]" sample_primitives sink "[0x70, 0x77]"]
    header_rejection [of "source [0x53, 0x61, 0x6C, 0x74, 0x65, 0x64, 0x5F, 0x21, 1, 2, 3, 4, 5, 6, 7, 8]"
      sample_primitives sink "[0x70, 0x77]"]
    header_rejection [of "source [0x53, 0x61, 0x6C, 0x74, 0x65, 0x64, 0x5F, 0x5F, 1, 2, 3, 4, 5, 6, 7, 8, 9]"
      sample_primitives sink "[0x70, 0x77]"]
  by (simp add: source_def magicHeader_def)

text \<open>
  C8 (wrong password). Decrypting a container that \<open>EncryptStream\<close> produced, with any
  password, never panics, whatever the sink. Into a sink that takes every write it returns
  normally, and the bytes written are the decrypted bytes with what looks like padding
  stripped, or those bytes as they are.
\<close>

theorem wrong_password:
  assumes "8 \<le> length (remaining rnd)"
    and "deriveKeyAndIV p password (take 8 (remaining rnd)) = Ok (key, v)"
    and "deriveKeyAndIV p password' (take 8 (remaining rnd)) = Ok (key', v')"
    and "block_sized (aes_Encrypt p)" "block_sized (aes_Decrypt p)"
  shows "(let container = written (snd (EncryptStream p rnd sink (source P) password));
              garbage = cbc_decrypt (aes_Decrypt p key') v' (drop 16 container)
          in removePKCS7Padding garbage (length garbage) = Ok (strip_final garbage) \<and>
             DecryptStream p sink (source container) password' =
               (Ok (), \<lparr>written = strip_final garbage, room = None\<rparr>) \<and>
             (strip_final garbage = garbage \<or>
              1 \<le> unat (last garbage) \<and> unat (last garbage) \<le> 16 \<and>
              strip_final garbage = take (length garbage - unat (last garbage)) garbage) \<and>
             (\<forall>w q. fst (DecryptStream p w (source container) password') \<noteq> Panic q))"
proof -
  let ?salt = "take 8 (remaining rnd)"
  let ?ct = "cbc_encrypt (aes_Encrypt p key) v (applyPKCS7Padding P)"
  let ?g = "cbc_decrypt (aes_Decrypt p key') v' ?ct"
  have lsalt: "length ?salt = 8" using assms(1) by simp
  have lct: "16 dvd length ?ct"
    using length_ciphertext [OF assms(2,4), of P] by simp
  have rem: "remaining (source (magicHeader @ ?salt @ ?ct)) = magicHeader @ ?salt @ ?ct"
    by (simp add: source_def)
  have dec: "DecryptStream p sink (source (magicHeader @ ?salt @ ?ct)) password' =
               (Ok (), sink\<lparr>written := written sink @ strip_final ?g\<rparr>)"
    by (rule DecryptStream_aligned [OF rem lsalt assms(3,5) _ lct]) (simp add: sink_def)
  have shape: "strip_final ?g = ?g \<or>
               1 \<le> unat (last ?g) \<and> unat (last ?g) \<le> 16 \<and>
               strip_final ?g = take (length ?g - unat (last ?g)) ?g"
    by (rule strip_final_cases)
  have calm: "\<forall>w q. fst (DecryptStream p w (source (magicHeader @ ?salt @ ?ct)) password') \<noteq> Panic q"
    using DecryptStream_no_panic [OF rem lsalt assms(3,5) lct] by blast
  show ?thesis
    unfolding EncryptStream_written [OF assms(1,2,4)]
    using dec shape lsalt calm
    by (simp add: Let_def length_magicHeader removePKCS7Padding_whole sink_def source_def)
qed

text \<open>A password that differs from the one used to encrypt.\<close>

theorem wrong_password_witness:
  "fst (DecryptStream sample_primitives sink
         (source (written (snd (EncryptStream sample_primitives (source [1, 2, 3, 4, 5, 6, 7, 8]) sink
            (source [0x68, 0x69, 0x21]) [0x70, 0x77]))))
         [0x01]) = Ok ()"
proof -
  have a: "8 \<le> length (remaining (source [1, 2, 3, 4, 5, 6, 7, 8]))"
    by (simp add: source_def)
  show ?thesis
    using wrong_password [where password = "[0x70, 0x77]" and password' = "[0x01]"
        and P = "[0x68, 0x69, 0x21]",
        OF a sample_deriveKeyAndIV sample_deriveKeyAndIV sample_block_sized]
    by (simp add: Let_def)
qed

text \<open>
  C6 (read failures). A read failure other than end of input ought to make
  \<open>EncryptStream\<close> and \<open>DecryptStream\<close> return an error that carries it. It does not:
  here the reader breaks with "connection reset" after three bytes of plaintext, respectively
  after one block of ciphertext, and both calls return success.
\<close>

theorem read_failure_returns_success:
  "fst (EncryptStream sample_primitives (source [1, 2, 3, 4, 5, 6, 7, 8]) sink
          \<lparr>remaining = [0x68, 0x69, 0x21], at_end = ErrOther ''connection reset''\<rparr> [0x70, 0x77])
     = Ok () \<and>
   fst (DecryptStream sample_primitives sink
          \<lparr>remaining = magicHeader @ [1, 2, 3, 4, 5, 6, 7, 8] @
              [0, 1, 2, 3, 4, 5, 6, 7, 8, 9, 10, 11, 12, 13, 14, 15],
           at_end = ErrOther ''connection reset''\<rparr> [0x70, 0x77])
     = Ok ()"
proof -
  have a: "8 \<le> length (remaining (source [1, 2, 3, 4, 5, 6, 7, 8]))"
    by (simp add: source_def)
  have e: "fst (EncryptStream sample_primitives (source [1, 2, 3, 4, 5, 6, 7, 8]) sink
          \<lparr>remaining = [0x68, 0x69, 0x21], at_end = ErrOther ''connection reset''\<rparr> [0x70, 0x77])
     = Ok ()"
    unfolding EncryptStream_written [OF a sample_deriveKeyAndIV sample_block_sized(1)]
    by simp
  let ?body = "[0, 1, 2, 3, 4, 5, 6, 7, 8, 9, 10, 11, 12, 13, 14, 15 :: byte]"
  let ?r = "\<lparr>remaining = magicHeader @ [1, 2, 3, 4, 5, 6, 7, 8] @ ?body,
           at_end = ErrOther ''connection reset''\<rparr>"
  have b: "remaining ?r = magicHeader @ [1, 2, 3, 4, 5, 6, 7, 8] @ ?body" by simp
  have c: "length [1, 2, 3, 4, 5, 6, 7, 8 :: byte] = 8" by simp
  have "length ?body = 16" by simp
  then have al: "16 dvd length ?body" by (simp only:) simp
  have r: "room sink = None" by (simp add: sink_def)
  have d: "fst (DecryptStream sample_primitives sink ?r [0x70, 0x77]) = Ok ()"
    unfolding DecryptStream_aligned [OF b c sample_deriveKeyAndIV sample_block_sized(2) r al]
    by simp
  show ?thesis using e d by simp
qed

end
